theory Spec2Isabelle
  imports Main "HOL-Library.Word" "HOL-Library.Sublist"
begin

section \<open>Data model of \<^verbatim>\<open>src/impl/tcptransport.cpp\<close>\<close>

text \<open>
  A socket handle is the OS descriptor \<^verbatim>\<open>socket_t\<close>; \<^verbatim>\<open>INVALID_SOCKET\<close> is the
  sentinel (-1 on POSIX). A message is an immutable byte buffer; \<^verbatim>\<open>message_ptr\<close> is a
  shared pointer to one, \<open>None\<close> being the null pointer.
\<close>

type_synonym socket_t = int

definition INVALID_SOCKET :: socket_t where
  "INVALID_SOCKET = - 1"

type_synonym message = "8 word list"

type_synonym message_ptr = "message option"

text \<open>A resolved candidate address (one node of the \<^verbatim>\<open>addrinfo\<close> list), kept opaque.\<close>

type_synonym sockaddr = nat

text \<open>The states of \<^verbatim>\<open>Transport::State\<close> that this file uses.\<close>

datatype State = Disconnected | Connecting | Connected | Failed

text \<open>\<^verbatim>\<open>PollService::Direction\<close> and \<^verbatim>\<open>PollService::Event\<close>.\<close>

datatype Direction = Direction_In | Direction_Out | Direction_Both

datatype Event = Event_None | Event_Error | Event_Timeout | Event_In | Event_Out

text \<open>
  The two closures that the transport hands to the poll service: the connect callback of
  \<^verbatim>\<open>connect()\<close>, which captures the cursor \<^verbatim>\<open>ai\<close> into the candidate list (here
  the address at \<^verbatim>\<open>ai\<close> and the list that starts at \<^verbatim>\<open>ai->ai_next\<close>, the null
  pointer being the empty list), and \<^verbatim>\<open>std::bind(&TcpTransport::process, this, _1)\<close>.
\<close>

datatype callback = Connect_callback sockaddr "sockaddr list" | Process_callback

text \<open>\<^verbatim>\<open>PollService::Params\<close>: direction, optional timeout in seconds, callback.\<close>

datatype Params = Params Direction "nat option" callback

text \<open>
  The \<^verbatim>\<open>std::runtime_error\<close>s thrown in the file, one constructor per message:
  "Connection is not open", "Connection closed", "Resolution failed for ...",
  "TCP socket creation failed", "Failed to set socket non-blocking mode",
  "TCP connection to ... failed, errno=...".
\<close>

datatype runtime_error =
    Connection_not_open
  | Connection_closed
  | Resolution_failed
  | Socket_creation_failed
  | Non_blocking_failed
  | Connection_failed

text \<open>
  Every call that leaves the transport, in the order it is made: the socket calls of the
  OS, the calls into the poll service, \<^verbatim>\<open>freeaddrinfo\<close>, and the two calls into the
  \<^verbatim>\<open>Transport\<close> base class (\<^verbatim>\<open>changeState\<close>, and \<^verbatim>\<open>recv\<close>, which hands a message to
  the layer above).
\<close>

datatype call =
    Sys_socket socket_t
  | Sys_ioctlsocket socket_t
  | Sys_connect socket_t sockaddr
  | Sys_closesocket socket_t
  | Sys_getsockopt socket_t
  | Sys_send socket_t int
  | Sys_recv socket_t
  | Poll_add socket_t Params
  | Poll_remove socket_t
  | Free_addrinfo
  | Change_state State
  | Recv_up message_ptr

text \<open>
  What the OS answers. One \<^verbatim>\<open>prepare\<close> makes the calls \<^verbatim>\<open>::socket\<close>,
  \<^verbatim>\<open>::ioctlsocket\<close>, \<^verbatim>\<open>::connect\<close> in a row; \<open>prepare_ret\<close> says where the row stops.
  \<open>Connect_pending\<close> is a \<^verbatim>\<open>::connect\<close> that returned 0, or -1 with
  \<^verbatim>\<open>SEINPROGRESS\<close> or \<^verbatim>\<open>SEWOULDBLOCK\<close>.
\<close>

datatype prepare_ret = Socket_failed | Ioctl_failed | Connect_failed | Connect_pending

text \<open>\<^verbatim>\<open>::getsockopt(SO_ERROR)\<close>: the call fails, or it stores the pending error code.\<close>

datatype sockopt_ret = Sockopt_failed | Sockopt_err int

text \<open>
  \<^verbatim>\<open>::send\<close>: \<open>Send_len n\<close> returns a length \<open>n \<ge> 0\<close>, \<open>Send_again\<close> returns -1 with
  \<^verbatim>\<open>SEAGAIN\<close> or \<^verbatim>\<open>SEWOULDBLOCK\<close>, \<open>Send_error\<close> returns -1 with another errno.
\<close>

datatype send_ret = Send_len nat | Send_again | Send_error

text \<open>
  \<^verbatim>\<open>::recv\<close>: \<open>Recv_data bs\<close> are the bytes that the kernel holds for the socket
  (none: the peer has closed, the call returns 0), \<open>Recv_again\<close> returns -1 with
  \<^verbatim>\<open>SEAGAIN\<close> or \<^verbatim>\<open>SEWOULDBLOCK\<close>, \<open>Recv_error\<close> returns -1 with another errno.
\<close>

datatype recv_ret = Recv_data message | Recv_again | Recv_error

text \<open>
  The transport and its surroundings. \<open>mSock\<close> and \<open>mSendQueue\<close> are the members of
  \<^verbatim>\<open>TcpTransport\<close>; \<open>state\<close> is what \<^verbatim>\<open>Transport::state()\<close> reads. The rest is the
  world around it: \<open>polls\<close> the registrations of the poll service, \<open>opened\<close> the
  descriptors that are open, \<open>wire\<close> the bytes that \<^verbatim>\<open>::send\<close> has accepted, \<open>log\<close>
  the calls made so far, and the answers that the OS will give to the next calls of each
  kind. \<open>overlap\<close> is a ghost flag: it records that \<^verbatim>\<open>::socket\<close> was called while a
  descriptor was open or a registration for a descriptor was present.
\<close>

record tcp =
  mSock :: socket_t
  mSendQueue :: "message list"
  state :: State
  polls :: "(socket_t \<times> Params) list"
  opened :: "socket_t list"
  overlap :: bool
  wire :: message
  log :: "call list"
  prepare_rets :: "prepare_ret list"
  sockopt_rets :: "sockopt_ret list"
  send_rets :: "send_ret list"
  recv_rets :: "recv_ret list"

section \<open>The collaborators\<close>

text \<open>
  Modelled from the spec: the \<^verbatim>\<open>Transport\<close> base class is not in the source file.
  \<^verbatim>\<open>changeState\<close> notifies the owning layer of a state transition; \<^verbatim>\<open>recv\<close> delivers a
  received chunk or, with a null message, an end-of-stream signal.
\<close>

definition changeState :: "State \<Rightarrow> tcp \<Rightarrow> tcp" where
  "changeState st s = s\<lparr>state := st, log := log s @ [Change_state st]\<rparr>"

definition recv_up :: "message_ptr \<Rightarrow> tcp \<Rightarrow> tcp" where
  "recv_up m s = s\<lparr>log := log s @ [Recv_up m]\<rparr>"

text \<open>
  Modelled from the spec: the poll service (the readiness notifier) is not in the source
  file. It maps a socket handle to a single registration; a new registration replaces
  any prior one; \<^verbatim>\<open>remove\<close> cancels it.
\<close>

definition poll_add :: "socket_t \<Rightarrow> Params \<Rightarrow> tcp \<Rightarrow> tcp" where
  "poll_add fd p s =
     s\<lparr>polls := (fd, p) # filter (\<lambda>e. fst e \<noteq> fd) (polls s),
       log := log s @ [Poll_add fd p]\<rparr>"

definition poll_remove :: "socket_t \<Rightarrow> tcp \<Rightarrow> tcp" where
  "poll_remove fd s =
     s\<lparr>polls := filter (\<lambda>e. fst e \<noteq> fd) (polls s),
       log := log s @ [Poll_remove fd]\<rparr>"

text \<open>
  Modelled from the spec: the send queue class is not in the source file. It is an
  ordered sequence of messages, insertion order = send order, FIFO. \<^verbatim>\<open>peek\<close> reads the
  head, \<^verbatim>\<open>exchange\<close> replaces the head, \<^verbatim>\<open>pop\<close> removes it, \<^verbatim>\<open>push\<close> appends.
\<close>

definition queue_peek :: "message list \<Rightarrow> message option" where
  "queue_peek q = (case q of [] \<Rightarrow> None | m # _ \<Rightarrow> Some m)"

definition queue_exchange :: "message \<Rightarrow> message list \<Rightarrow> message list" where
  "queue_exchange m q = (case q of [] \<Rightarrow> [] | _ # rest \<Rightarrow> m # rest)"

definition queue_pop :: "message list \<Rightarrow> message list" where
  "queue_pop q = (case q of [] \<Rightarrow> [] | _ # rest \<Rightarrow> rest)"

definition queue_push :: "message \<Rightarrow> message list \<Rightarrow> message list" where
  "queue_push m q = q @ [m]"

text \<open>
  The OS. \<^verbatim>\<open>::socket\<close> hands out a descriptor that is not open and is not the sentinel
  (the one above the largest open one, 0 when none is open); \<^verbatim>\<open>::closesocket\<close>
  releases a descriptor.
\<close>

definition fresh_fd :: "socket_t list \<Rightarrow> socket_t" where
  "fresh_fd fds = Max (insert (- 1) (set fds)) + 1"

definition sys_socket :: "tcp \<Rightarrow> socket_t \<times> tcp" where
  "sys_socket s =
     (let fd = fresh_fd (opened s) in
      (fd, s\<lparr>opened := fd # opened s,
             overlap := (overlap s \<or> opened s \<noteq> [] \<or> (\<exists>e \<in> set (polls s). fst e \<noteq> INVALID_SOCKET)),
             log := log s @ [Sys_socket fd]\<rparr>))"

definition sys_closesocket :: "socket_t \<Rightarrow> tcp \<Rightarrow> tcp" where
  "sys_closesocket fd s =
     s\<lparr>opened := removeAll fd (opened s), log := log s @ [Sys_closesocket fd]\<rparr>"

section \<open>The send path\<close>

text \<open>
  \<^verbatim>\<open>bool trySendMessage(message_ptr &message)\<close> returns a flag and rewrites the variable
  of its caller: \<open>Sent_all\<close> is \<^verbatim>\<open>message = nullptr; return true\<close>, and
  \<open>Would_block r\<close> is \<^verbatim>\<open>message = make_message(message->end() - size, message->end());
  return false\<close>, with \<open>r\<close> the last \<^verbatim>\<open>size\<close> bytes.
\<close>

datatype send_status = Sent_all | Would_block message

text \<open>
  The length that \<^verbatim>\<open>trySendMessage\<close> passes to \<^verbatim>\<open>::send\<close> is \<^verbatim>\<open>int(size)\<close>: the
  \<^verbatim>\<open>size_t\<close> cut down to the 32 bits of an \<^verbatim>\<open>int\<close>. It is \<^verbatim>\<open>size\<close> below \<open>2^31\<close>
  bytes, negative from there to \<open>2^32\<close>, and 0 at \<open>2^32\<close>.
\<close>

definition int_size :: "nat \<Rightarrow> int" where
  "int_size n = (let m = int n mod 2 ^ 32 in if m < 2 ^ 31 then m else m - 2 ^ 32)"

text \<open>
  The most that \<^verbatim>\<open>::send\<close> takes of \<open>n\<close> remaining bytes, given that length: never more
  than it was asked for. A negative \<^verbatim>\<open>int\<close> reads as a huge \<^verbatim>\<open>size_t\<close> (the type of
  the parameter), which leaves the remaining bytes as the only bound; what lies behind
  the end of the message is not modelled.
\<close>

definition send_most :: "nat \<Rightarrow> nat" where
  "send_most n = (if 0 \<le> int_size n then nat (int_size n) else n)"

text \<open>
  The loop \<^verbatim>\<open>while (size)\<close> of \<^verbatim>\<open>trySendMessage\<close>. Its variables \<^verbatim>\<open>data\<close> and
  \<^verbatim>\<open>size\<close> move together (\<^verbatim>\<open>data += len; size -= len\<close>), so the argument \<open>data\<close> is
  the byte range from \<^verbatim>\<open>data\<close> to \<^verbatim>\<open>message->end()\<close> and \<^verbatim>\<open>size\<close> is its length.
  The result is \<open>None\<close> when the answers of the OS run out before the loop ends.
\<close>

function trySendMessage :: "message \<Rightarrow> tcp \<Rightarrow> ((runtime_error + send_status) \<times> tcp) option" where
  "trySendMessage data s =
     (if data = [] then Some (Inr Sent_all, s)
      else (case send_rets s of
              [] \<Rightarrow> None
            | r # rs \<Rightarrow>
                (case r of
                   Send_len len \<Rightarrow>
                     trySendMessage (drop (min len (send_most (length data))) data)
                       (s\<lparr>send_rets := rs,
                          log := log s @ [Sys_send (mSock s) (int_size (length data))],
                          wire := wire s @ take (min len (send_most (length data))) data\<rparr>)
                 | Send_again \<Rightarrow>
                     Some (Inr (Would_block data),
                           s\<lparr>send_rets := rs,
                             log := log s @ [Sys_send (mSock s) (int_size (length data))]\<rparr>)
                 | Send_error \<Rightarrow>
                     Some (Inl Connection_closed,
                           s\<lparr>send_rets := rs,
                             log := log s @ [Sys_send (mSock s) (int_size (length data))]\<rparr>))))"
  by pat_completeness auto
termination
  by (relation "measure (\<lambda>(data, s). length (send_rets s))") auto

declare trySendMessage.simps [simp del]

text \<open>
  \<^verbatim>\<open>trySendQueue\<close>: \<^verbatim>\<open>while (auto next = mSendQueue.peek())\<close>. An exception of
  \<^verbatim>\<open>trySendMessage\<close> leaves the loop with the queue as it is.
\<close>

function trySendQueue :: "tcp \<Rightarrow> ((runtime_error + bool) \<times> tcp) option" where
  "trySendQueue s =
     (case queue_peek (mSendQueue s) of
        None \<Rightarrow> Some (Inr True, s)
      | Some next \<Rightarrow>
          (case trySendMessage next s of
             None \<Rightarrow> None
           | Some (Inl e, s1) \<Rightarrow> Some (Inl e, s1)
           | Some (Inr (Would_block message), s1) \<Rightarrow>
               Some (Inr False, s1\<lparr>mSendQueue := queue_exchange message (mSendQueue s1)\<rparr>)
           | Some (Inr Sent_all, s1) \<Rightarrow>
               trySendQueue (s1\<lparr>mSendQueue := queue_pop (mSendQueue s1)\<rparr>)))"
  by pat_completeness auto
termination
proof (relation "measure (\<lambda>s. length (mSendQueue s))")
  show "wf (measure (\<lambda>s. length (mSendQueue s)))" by simp
next
  fix s :: tcp and "next" x2 and s1 :: tcp and x1 y
  assume peek: "queue_peek (mSendQueue s) = Some next"
    and sent: "trySendMessage next s = Some x2" "(x1, s1) = x2" "x1 = Inr y" "y = Sent_all"
  have keep: "\<And>r t'. trySendMessage data t = Some (r, t') \<Longrightarrow> mSendQueue t' = mSendQueue t"
    for data t
  proof (induction data t rule: trySendMessage.induct)
    case (1 data t)
    from "1.prems" show ?case
      by (subst (asm) trySendMessage.simps)
         (auto split: if_splits list.splits send_ret.splits dest: "1.IH")
  qed
  from sent have "mSendQueue s1 = mSendQueue s" by (auto dest: keep)
  with peek show "(s1\<lparr>mSendQueue := queue_pop (mSendQueue s1)\<rparr>, s) \<in> measure (\<lambda>s. length (mSendQueue s))"
    by (auto simp: queue_peek_def queue_pop_def split: list.splits)
qed

declare trySendQueue.simps [simp del]

text \<open>\<^verbatim>\<open>setPoll\<close> registers \<^verbatim>\<open>process\<close> for \<^verbatim>\<open>mSock\<close>, without a timeout.\<close>

definition setPoll :: "Direction \<Rightarrow> tcp \<Rightarrow> tcp" where
  "setPoll direction s = poll_add (mSock s) (Params direction None Process_callback) s"

text \<open>
  \<^verbatim>\<open>outgoing\<close>: the message is tried directly only when the queue has drained; what is
  pushed is the variable \<^verbatim>\<open>message\<close>, which \<^verbatim>\<open>trySendMessage\<close> has rewritten to the
  unsent suffix when it ran.
\<close>

definition outgoing :: "message \<Rightarrow> tcp \<Rightarrow> ((runtime_error + bool) \<times> tcp) option" where
  "outgoing message s =
     (case trySendQueue s of
        None \<Rightarrow> None
      | Some (Inl e, s1) \<Rightarrow> Some (Inl e, s1)
      | Some (Inr False, s1) \<Rightarrow>
          Some (Inr False,
                setPoll Direction_Both (s1\<lparr>mSendQueue := queue_push message (mSendQueue s1)\<rparr>))
      | Some (Inr True, s1) \<Rightarrow>
          (case trySendMessage message s1 of
             None \<Rightarrow> None
           | Some (Inl e, s2) \<Rightarrow> Some (Inl e, s2)
           | Some (Inr Sent_all, s2) \<Rightarrow> Some (Inr True, s2)
           | Some (Inr (Would_block rest), s2) \<Rightarrow>
               Some (Inr False,
                     setPoll Direction_Both (s2\<lparr>mSendQueue := queue_push rest (mSendQueue s2)\<rparr>))))"

text \<open>
  \<^verbatim>\<open>send\<close>, under the lock \<^verbatim>\<open>mSendMutex\<close> (one caller at a time, which a sequential
  model gives for free). The second test of the state in the source cannot be reached.
\<close>

definition send :: "message_ptr \<Rightarrow> tcp \<Rightarrow> ((runtime_error + bool) \<times> tcp) option" where
  "send message s =
     (if state s \<noteq> Connected then Some (Inl Connection_not_open, s)
      else (case message of
              None \<Rightarrow> trySendQueue s
            | Some m \<Rightarrow> outgoing m s))"

section \<open>The receive path and \<^verbatim>\<open>process\<close>\<close>

definition incoming :: "message_ptr \<Rightarrow> tcp \<Rightarrow> tcp" where
  "incoming message s = (case message of None \<Rightarrow> s | Some _ \<Rightarrow> recv_up message s)"

definition bufferSize :: nat where
  "bufferSize = 4096"

text \<open>
  \<^verbatim>\<open>::recv(mSock, buffer, bufferSize, 0)\<close> copies at most \<^verbatim>\<open>bufferSize\<close> of the bytes
  that the kernel holds; the others stay there for the next call.
\<close>

definition sys_recv :: "tcp \<Rightarrow> (recv_ret \<times> tcp) option" where
  "sys_recv s =
     (case recv_rets s of
        [] \<Rightarrow> None
      | Recv_data bs # rs \<Rightarrow>
          Some (Recv_data (take bufferSize bs),
                s\<lparr>recv_rets := (if length bs \<le> bufferSize then rs
                                 else Recv_data (drop bufferSize bs) # rs),
                  log := log s @ [Sys_recv (mSock s)]\<rparr>)
      | r # rs \<Rightarrow> Some (r, s\<lparr>recv_rets := rs, log := log s @ [Sys_recv (mSock s)]\<rparr>))"

fun recv_weight :: "recv_ret \<Rightarrow> nat" where
  "recv_weight (Recv_data bs) = Suc (length bs)"
| "recv_weight _ = 1"

text \<open>
  The loop \<^verbatim>\<open>while ((len = ::recv(...)) > 0) incoming(make_message(b, b + len))\<close>; the
  result is the answer that ended it.
\<close>

function recv_loop :: "tcp \<Rightarrow> (recv_ret \<times> tcp) option" where
  "recv_loop s =
     (case sys_recv s of
        None \<Rightarrow> None
      | Some (Recv_data b, s1) \<Rightarrow>
          (if b \<noteq> [] then recv_loop (incoming (Some b) s1) else Some (Recv_data b, s1))
      | Some (r, s1) \<Rightarrow> Some (r, s1))"
  by pat_completeness auto
termination
  by (relation "measure (\<lambda>s. sum_list (map recv_weight (recv_rets s)))")
     (auto simp: sys_recv_def incoming_def recv_up_def bufferSize_def
           split: list.splits recv_ret.splits if_splits)

declare recv_loop.simps [simp del]

text \<open>
  The end of \<^verbatim>\<open>process\<close>, reached by \<^verbatim>\<open>break\<close> or through the \<^verbatim>\<open>catch\<close>: remove the
  registration, change the state, hand the null message upward.
\<close>

definition process_disconnect :: "tcp \<Rightarrow> tcp" where
  "process_disconnect s = recv_up None (changeState Disconnected (poll_remove (mSock s) s))"

definition process :: "Event \<Rightarrow> tcp \<Rightarrow> tcp option" where
  "process event s =
     (case event of
        Event_Error \<Rightarrow> Some (process_disconnect s)
      | Event_Timeout \<Rightarrow> Some (incoming (Some []) s)
      | Event_Out \<Rightarrow>
          (case trySendQueue s of
             None \<Rightarrow> None
           | Some (Inl e, s1) \<Rightarrow> Some (process_disconnect s1)
           | Some (Inr True, s1) \<Rightarrow> Some (setPoll Direction_In s1)
           | Some (Inr False, s1) \<Rightarrow> Some s1)
      | Event_In \<Rightarrow>
          (case recv_loop s of
             None \<Rightarrow> None
           | Some (Recv_data b, s1) \<Rightarrow> Some (process_disconnect s1)
           | Some (Recv_again, s1) \<Rightarrow> Some s1
           | Some (Recv_error, s1) \<Rightarrow> Some (process_disconnect s1))
      | Event_None \<Rightarrow> Some s)"

section \<open>Teardown\<close>

definition close :: "tcp \<Rightarrow> tcp" where
  "close s =
     changeState Disconnected
       (if mSock s \<noteq> INVALID_SOCKET
        then (sys_closesocket (mSock s) (poll_remove (mSock s) s))\<lparr>mSock := INVALID_SOCKET\<rparr>
        else s)"

text \<open>
  \<^verbatim>\<open>Transport::stop()\<close> is not in the source file; \<open>base_stop\<close> is what it returns.
\<close>

definition stop :: "bool \<Rightarrow> tcp \<Rightarrow> bool \<times> tcp" where
  "stop base_stop s = (if \<not> base_stop then (False, s) else (True, close s))"

section \<open>Connecting\<close>

definition free_addrinfo :: "tcp \<Rightarrow> tcp" where
  "free_addrinfo s = s\<lparr>log := log s @ [Free_addrinfo]\<rparr>"

text \<open>The \<^verbatim>\<open>catch (...)\<close> block of \<^verbatim>\<open>prepare\<close>, before it rethrows.\<close>

definition prepare_catch :: "tcp \<Rightarrow> tcp" where
  "prepare_catch s =
     (if mSock s \<noteq> INVALID_SOCKET
      then (sys_closesocket (mSock s) s)\<lparr>mSock := INVALID_SOCKET\<rparr>
      else s)"

text \<open>
  \<^verbatim>\<open>prepare\<close> (the \<^verbatim>\<open>setsockopt\<close> of the Apple build left out). The result is \<open>None\<close>
  when no answer of the OS is left.
\<close>

definition prepare :: "sockaddr \<Rightarrow> tcp \<Rightarrow> ((runtime_error + unit) \<times> tcp) option" where
  "prepare addr s =
     (case prepare_rets s of
        [] \<Rightarrow> None
      | r # rs \<Rightarrow>
          (let s0 = s\<lparr>prepare_rets := rs\<rparr> in
           if r = Socket_failed
           then Some (Inl Socket_creation_failed,
                      prepare_catch (s0\<lparr>mSock := INVALID_SOCKET,
                                        log := log s0 @ [Sys_socket INVALID_SOCKET]\<rparr>))
           else
             (let (fd, s1) = sys_socket s0;
                  s2 = s1\<lparr>mSock := fd, log := log s1 @ [Sys_ioctlsocket fd]\<rparr>
              in if r = Ioctl_failed then Some (Inl Non_blocking_failed, prepare_catch s2)
                 else
                   (let s3 = s2\<lparr>log := log s2 @ [Sys_connect fd addr]\<rparr>
                    in if r = Connect_failed then Some (Inl Connection_failed, prepare_catch s3)
                       else Some (Inr (), s3)))))"

text \<open>
  The closure \<^verbatim>\<open>attempt\<close> of \<^verbatim>\<open>connect()\<close>, called with the cursor \<^verbatim>\<open>ai\<close>. Its
  \<^verbatim>\<open>catch\<close> block calls \<^verbatim>\<open>recurse(ai->ai_next, recurse)\<close> and does not return, so the
  registration at the end of the closure is made after the recursive call as well, for
  whatever \<^verbatim>\<open>mSock\<close> is by then.
\<close>

fun attempt :: "sockaddr list \<Rightarrow> tcp \<Rightarrow> tcp option" where
  "attempt [] s = Some (changeState Failed (free_addrinfo s))"
| "attempt (ai # ai_next) s =
     (case prepare ai s of
        None \<Rightarrow> None
      | Some (Inl e, s1) \<Rightarrow>
          (case attempt ai_next s1 of
             None \<Rightarrow> None
           | Some s2 \<Rightarrow>
               Some (poll_add (mSock s2)
                       (Params Direction_Out (Some 10) (Connect_callback ai ai_next)) s2))
      | Some (Inr u, s1) \<Rightarrow>
          Some (poll_add (mSock s1)
                  (Params Direction_Out (Some 10) (Connect_callback ai ai_next)) s1))"

definition sys_getsockopt :: "tcp \<Rightarrow> (sockopt_ret \<times> tcp) option" where
  "sys_getsockopt s =
     (case sockopt_rets s of
        [] \<Rightarrow> None
      | r # rs \<Rightarrow> Some (r, s\<lparr>sockopt_rets := rs, log := log s @ [Sys_getsockopt (mSock s)]\<rparr>))"

text \<open>The \<^verbatim>\<open>catch\<close> block of the connect callback.\<close>

definition connect_catch :: "sockaddr list \<Rightarrow> tcp \<Rightarrow> tcp option" where
  "connect_catch ai_next s =
     attempt ai_next
       ((sys_closesocket (mSock s) (poll_remove (mSock s) s))\<lparr>mSock := INVALID_SOCKET\<rparr>)"

text \<open>The connect callback that \<^verbatim>\<open>attempt\<close> registers for the cursor \<^verbatim>\<open>ai\<close>.\<close>

definition connect_callback :: "sockaddr \<Rightarrow> sockaddr list \<Rightarrow> Event \<Rightarrow> tcp \<Rightarrow> tcp option" where
  "connect_callback ai ai_next event s =
     (case event of
        Event_Error \<Rightarrow> connect_catch ai_next s
      | Event_Timeout \<Rightarrow> connect_catch ai_next s
      | Event_Out \<Rightarrow>
          (case sys_getsockopt s of
             None \<Rightarrow> None
           | Some (Sockopt_failed, s1) \<Rightarrow> connect_catch ai_next s1
           | Some (Sockopt_err err, s1) \<Rightarrow>
               (if err \<noteq> 0 then connect_catch ai_next s1
                else Some (setPoll Direction_In (changeState Connected (free_addrinfo s1)))))
      | Event_In \<Rightarrow> Some s
      | Event_None \<Rightarrow> Some s)"

text \<open>
  \<^verbatim>\<open>connect()\<close>; \<open>result\<close> is what \<^verbatim>\<open>getaddrinfo\<close> gives: \<open>None\<close> when it fails,
  the candidate list otherwise.
\<close>

definition connect :: "sockaddr list option \<Rightarrow> tcp \<Rightarrow> ((runtime_error + unit) \<times> tcp) option" where
  "connect result s =
     (let s1 = changeState Connecting s in
      case result of
        None \<Rightarrow> Some (Inl Resolution_failed, s1)
      | Some ais \<Rightarrow>
          (case attempt ais s1 of
             None \<Rightarrow> None
           | Some s2 \<Rightarrow> Some (Inr (), s2)))"

text \<open>
  \<^verbatim>\<open>start()\<close>, after \<^verbatim>\<open>Transport::start()\<close> of the base class, which is not in the
  source file and is taken to leave the members modelled here as they are.
\<close>

definition start :: "sockaddr list option \<Rightarrow> tcp \<Rightarrow> ((runtime_error + unit) \<times> tcp) option" where
  "start result s =
     (if mSock s = INVALID_SOCKET then connect result s
      else Some (Inr (), setPoll Direction_In (changeState Connected s)))"

text \<open>
  Modelled from the spec: the poll service delivers one of the events to the callback
  that is registered for a socket handle, on its own thread; with no registration
  nothing is called.
\<close>

definition poll_event :: "socket_t \<Rightarrow> Event \<Rightarrow> tcp \<Rightarrow> tcp option" where
  "poll_event fd event s =
     (case map_of (polls s) fd of
        None \<Rightarrow> Some s
      | Some (Params direction timeout cb) \<Rightarrow>
          (case cb of
             Connect_callback ai ai_next \<Rightarrow> connect_callback ai ai_next event s
           | Process_callback \<Rightarrow> process event s))"

text \<open>
  The two constructors: the active one starts without a socket, the passive one adopts
  a connected socket (it throws, and there is no transport, when the socket cannot be
  set non-blocking or its peer cannot be named). The arguments are the answers that the
  OS is going to give. Modelled from the spec: the state of a new transport, kept by
  the \<^verbatim>\<open>Transport\<close> base class, is \<open>Disconnected\<close>.
\<close>

definition TcpTransport_active ::
  "prepare_ret list \<Rightarrow> sockopt_ret list \<Rightarrow> send_ret list \<Rightarrow> recv_ret list \<Rightarrow> tcp" where
  "TcpTransport_active ps gs ss rs =
     \<lparr>mSock = INVALID_SOCKET, mSendQueue = [], state = Disconnected, polls = [],
      opened = [], overlap = False, wire = [], log = [],
      prepare_rets = ps, sockopt_rets = gs, send_rets = ss, recv_rets = rs\<rparr>"

definition TcpTransport_passive ::
  "socket_t \<Rightarrow> prepare_ret list \<Rightarrow> sockopt_ret list \<Rightarrow> send_ret list \<Rightarrow> recv_ret list \<Rightarrow> tcp" where
  "TcpTransport_passive sock ps gs ss rs =
     \<lparr>mSock = sock, mSendQueue = [], state = Disconnected, polls = [],
      opened = [sock], overlap = False, wire = [], log = [],
      prepare_rets = ps, sockopt_rets = gs, send_rets = ss, recv_rets = rs\<rparr>"

text \<open>
  The states that a transport can be in: after a constructor, and after any public call
  or any event that the poll service delivers.
\<close>

inductive reachable :: "tcp \<Rightarrow> bool" where
  reach_active: "reachable (TcpTransport_active ps gs ss rs)"
| reach_passive: "sock \<noteq> INVALID_SOCKET \<Longrightarrow> reachable (TcpTransport_passive sock ps gs ss rs)"
| reach_start: "reachable s \<Longrightarrow> start result s = Some (r, s') \<Longrightarrow> reachable s'"
| reach_send: "reachable s \<Longrightarrow> send message s = Some (r, s') \<Longrightarrow> reachable s'"
| reach_event: "reachable s \<Longrightarrow> poll_event fd event s = Some s' \<Longrightarrow> reachable s'"
| reach_stop: "reachable s \<Longrightarrow> stop base_stop s = (r, s') \<Longrightarrow> reachable s'"

text \<open>
  A run of the send path: calls of \<^verbatim>\<open>send\<close> and \<^verbatim>\<open>Out\<close> events handled by
  \<^verbatim>\<open>process\<close>, in some order. It stops at the first call of \<^verbatim>\<open>send\<close> that throws;
  otherwise it gives what the calls of \<^verbatim>\<open>send\<close> returned.
\<close>

datatype op = Op_send message_ptr | Op_out

fun run :: "op list \<Rightarrow> tcp \<Rightarrow> ((runtime_error + bool list) \<times> tcp) option" where
  "run [] s = Some (Inr [], s)"
| "run (Op_send message # ops) s =
     (case send message s of
        None \<Rightarrow> None
      | Some (Inl e, s1) \<Rightarrow> Some (Inl e, s1)
      | Some (Inr b, s1) \<Rightarrow>
          (case run ops s1 of
             None \<Rightarrow> None
           | Some (Inl e, s2) \<Rightarrow> Some (Inl e, s2)
           | Some (Inr bs, s2) \<Rightarrow> Some (Inr (b # bs), s2)))"
| "run (Op_out # ops) s =
     (case process Event_Out s of
        None \<Rightarrow> None
      | Some s1 \<Rightarrow> run ops s1)"

text \<open>The payloads that a run submits: the messages of its calls of \<^verbatim>\<open>send\<close>.\<close>

fun payloads :: "op list \<Rightarrow> message list" where
  "payloads [] = []"
| "payloads (Op_send (Some m) # ops) = m # payloads ops"
| "payloads (Op_send None # ops) = payloads ops"
| "payloads (Op_out # ops) = payloads ops"

section \<open>Notions used by the properties\<close>

text \<open>
  The queue against the list of the messages submitted so far: the queue is empty, or
  it is the part of that list behind some position, with its head cut down to a suffix
  of the message at that position (the message in flight).
\<close>

definition in_flight_inv :: "message list \<Rightarrow> message list \<Rightarrow> bool" where
  "in_flight_inv submitted q =
     (case q of
        [] \<Rightarrow> True
      | h # rest \<Rightarrow>
          (\<exists>k \<in> {..<length submitted}. suffix h (submitted ! k) \<and> rest = drop (Suc k) submitted))"

text \<open>The calls of a receive loop that reads the chunks \<open>cs\<close> one by one.\<close>

definition recv_log :: "socket_t \<Rightarrow> message list \<Rightarrow> call list" where
  "recv_log fd cs = concat (map (\<lambda>c. [Sys_recv fd, Recv_up (Some c)]) cs)"

text \<open>The invariant of the socket handle: the open descriptors are exactly the live handle.\<close>

definition one_socket :: "tcp \<Rightarrow> bool" where
  "one_socket s =
     (\<not> overlap s \<and>
      opened s = (if mSock s = INVALID_SOCKET then [] else [mSock s]) \<and>
      (\<forall>e \<in> set (polls s). fst e = mSock s \<or> fst e = INVALID_SOCKET))"

text \<open>
  A connected transport to try the send path on: a passive transport on descriptor 3
  after \<^verbatim>\<open>start()\<close>, with the given answers to \<^verbatim>\<open>::send\<close> and \<^verbatim>\<open>::recv\<close>.
\<close>

definition connected_on_3 :: "send_ret list \<Rightarrow> recv_ret list \<Rightarrow> tcp" where
  "connected_on_3 ss rs =
     setPoll Direction_In (changeState Connected (TcpTransport_passive 3 [] [] ss rs))"

text \<open>
  Counting in a log: the end-of-stream notifications (\<^verbatim>\<open>recv(nullptr)\<close>) and the
  calls of \<^verbatim>\<open>::closesocket\<close>.
\<close>

definition eos_count :: "call list \<Rightarrow> nat" where
  "eos_count l = length (filter (\<lambda>c. c = Recv_up None) l)"

fun is_closesocket :: "call \<Rightarrow> bool" where
  "is_closesocket (Sys_closesocket fd) = True"
| "is_closesocket c = False"

definition close_count :: "call list \<Rightarrow> nat" where
  "close_count l = length (filter is_closesocket l)"

text \<open>
  An active transport in the middle of connecting: what \<^verbatim>\<open>start()\<close> leaves when the
  only candidate, address 7, has its \<^verbatim>\<open>::connect\<close> pending on descriptor 0.
\<close>

definition connecting_on_0 :: tcp where
  "connecting_on_0 =
     \<lparr>mSock = 0, mSendQueue = [], state = Connecting,
      polls = [(0, Params Direction_Out (Some 10) (Connect_callback 7 []))],
      opened = [0], overlap = False, wire = [],
      log = [Change_state Connecting, Sys_socket 0, Sys_ioctlsocket 0, Sys_connect 0 7,
             Poll_add 0 (Params Direction_Out (Some 10) (Connect_callback 7 []))],
      prepare_rets = [], sockopt_rets = [], send_rets = [], recv_rets = []\<rparr>"

section \<open>Properties of the send path\<close>

lemma int_size_small: "n < 2 ^ 31 \<Longrightarrow> int_size n = int n \<and> send_most n = n"
  by (simp add: int_size_def send_most_def)

lemma int_size_wraps: "int_size (2 ^ 31) = - (2 ^ 31) \<and> int_size (2 ^ 32) = 0"
  by (simp add: int_size_def)

lemma trySendMessage_frame:
  "trySendMessage data s = Some (r, s') \<Longrightarrow>
     mSendQueue s' = mSendQueue s \<and> state s' = state s \<and> mSock s' = mSock s \<and>
     polls s' = polls s \<and> opened s' = opened s \<and> overlap s' = overlap s \<and>
     prepare_rets s' = prepare_rets s \<and> sockopt_rets s' = sockopt_rets s \<and>
     recv_rets s' = recv_rets s"
proof (induction data s rule: trySendMessage.induct)
  case (1 data s)
  show ?case
  proof (cases "data = []")
    case True
    with "1.prems" show ?thesis by (simp add: trySendMessage.simps)
  next
    case False
    note ne = this
    show ?thesis
    proof (cases "send_rets s")
      case Nil
      with ne "1.prems" show ?thesis by (simp add: trySendMessage.simps)
    next
      case (Cons a rs)
      show ?thesis
      proof (cases a)
        case (Send_len len)
        with ne Cons "1.prems" "1.IH"[OF ne Cons Send_len] show ?thesis
          by (simp add: trySendMessage.simps)
      next
        case Send_again
        with ne Cons "1.prems" show ?thesis by (auto simp add: trySendMessage.simps)
      next
        case Send_error
        with ne Cons "1.prems" show ?thesis by (auto simp add: trySendMessage.simps)
      qed
    qed
  qed
qed

lemma trySendMessage_wire:
  "trySendMessage data s = Some (Inr st, s') \<Longrightarrow>
     wire s' @ (case st of Sent_all \<Rightarrow> [] | Would_block r \<Rightarrow> r) = wire s @ data"
proof (induction data s rule: trySendMessage.induct)
  case (1 data s)
  from "1.prems" show ?case
    by (subst (asm) trySendMessage.simps)
       (auto split: if_splits list.splits send_ret.splits dest!: "1.IH")
qed

lemma trySendQueue_Nil: "mSendQueue s = [] \<Longrightarrow> trySendQueue s = Some (Inr True, s)"
  by (subst trySendQueue.simps) (simp add: queue_peek_def)

lemma trySendQueue_Cons:
  "mSendQueue s = m # rest \<Longrightarrow>
   trySendQueue s =
     (case trySendMessage m s of
        None \<Rightarrow> None
      | Some (Inl e, s1) \<Rightarrow> Some (Inl e, s1)
      | Some (Inr (Would_block r), s1) \<Rightarrow> Some (Inr False, s1\<lparr>mSendQueue := r # rest\<rparr>)
      | Some (Inr Sent_all, s1) \<Rightarrow> trySendQueue (s1\<lparr>mSendQueue := rest\<rparr>))"
  by (subst trySendQueue.simps)
     (auto simp: queue_peek_def queue_exchange_def queue_pop_def
           split: option.splits sum.splits send_status.splits dest: trySendMessage_frame)

lemma trySendQueue_induct:
  assumes nil: "\<And>s. mSendQueue s = [] \<Longrightarrow> P s"
    and cons: "\<And>s m rest. mSendQueue s = m # rest \<Longrightarrow>
                 (\<And>s1. trySendMessage m s = Some (Inr Sent_all, s1) \<Longrightarrow> P (s1\<lparr>mSendQueue := rest\<rparr>))
                 \<Longrightarrow> P s"
  shows "P s"
proof (induction s rule: trySendQueue.induct)
  case (1 s)
  show ?case
  proof (cases "mSendQueue s")
    case Nil
    then show ?thesis by (rule nil)
  next
    case (Cons m rest)
    show ?thesis
    proof (rule cons[OF Cons])
      fix s1 assume tm: "trySendMessage m s = Some (Inr Sent_all, s1)"
      have peek: "queue_peek (mSendQueue s) = Some m" using Cons by (simp add: queue_peek_def)
      from trySendMessage_frame[OF tm] Cons have "queue_pop (mSendQueue s1) = rest"
        by (simp add: queue_pop_def)
      with "1.IH"[OF peek tm refl refl refl] show "P (s1\<lparr>mSendQueue := rest\<rparr>)" by simp
    qed
  qed
qed

lemma trySendQueue_frame:
  "trySendQueue s = Some (r, s') \<Longrightarrow>
     state s' = state s \<and> mSock s' = mSock s \<and>
     polls s' = polls s \<and> opened s' = opened s \<and> overlap s' = overlap s \<and>
     prepare_rets s' = prepare_rets s \<and> sockopt_rets s' = sockopt_rets s \<and>
     recv_rets s' = recv_rets s"
proof (induction s rule: trySendQueue_induct)
  case (1 s)
  then show ?case by (simp add: trySendQueue_Nil)
next
  case (2 s m rest)
  from "2.prems" obtain x s1 where tm: "trySendMessage m s = Some (x, s1)"
    by (auto simp: trySendQueue_Cons[OF "2.hyps"] split: option.splits)
  note f = trySendMessage_frame[OF tm]
  show ?case
  proof (cases x)
    case (Inl e)
    with tm "2.prems" f show ?thesis by (auto simp: trySendQueue_Cons[OF "2.hyps"])
  next
    case (Inr st)
    show ?thesis
    proof (cases st)
      case Sent_all
      with Inr tm "2.prems" have "trySendQueue (s1\<lparr>mSendQueue := rest\<rparr>) = Some (r, s')"
        by (simp add: trySendQueue_Cons[OF "2.hyps"])
      from "2.IH"[OF tm[unfolded Inr Sent_all] this] f show ?thesis by simp
    next
      case (Would_block d)
      with Inr tm "2.prems" f show ?thesis by (auto simp: trySendQueue_Cons[OF "2.hyps"])
    qed
  qed
qed

lemma trySendQueue_wire:
  "trySendQueue s = Some (Inr b, s') \<Longrightarrow>
     wire s' @ concat (mSendQueue s') = wire s @ concat (mSendQueue s) \<and>
     (b \<longleftrightarrow> mSendQueue s' = [])"
proof (induction s rule: trySendQueue.induct)
  case (1 s)
  show ?case
  proof (cases "mSendQueue s")
    case Nil
    with "1.prems" show ?thesis by (simp add: trySendQueue_Nil)
  next
    case (Cons m rest)
    note q = this
    from "1.prems" obtain x s1 where tm: "trySendMessage m s = Some (Inr x, s1)"
      by (auto simp: trySendQueue_Cons[OF q] split: option.splits sum.splits)
    from trySendMessage_frame[OF tm] have q1: "mSendQueue s1 = m # rest" using q by simp
    show ?thesis
    proof (cases x)
      case Sent_all
      with tm "1.prems" have rec: "trySendQueue (s1\<lparr>mSendQueue := rest\<rparr>) = Some (Inr b, s')"
        by (simp add: trySendQueue_Cons[OF q])
      have peek: "queue_peek (mSendQueue s) = Some m" using q by (simp add: queue_peek_def)
      from rec q1 have "trySendQueue (s1\<lparr>mSendQueue := queue_pop (mSendQueue s1)\<rparr>) = Some (Inr b, s')"
        by (simp add: queue_pop_def)
      from "1.IH"[OF peek tm refl refl Sent_all this]
      have "wire s' @ concat (mSendQueue s') = wire s1 @ concat rest \<and> (b \<longleftrightarrow> mSendQueue s' = [])"
        using q1 by (simp add: queue_pop_def)
      moreover from trySendMessage_wire[OF tm] Sent_all have "wire s1 = wire s @ m" by simp
      ultimately show ?thesis using q by simp
    next
      case (Would_block r)
      with tm "1.prems" have "b = False" "s' = s1\<lparr>mSendQueue := r # rest\<rparr>"
        by (simp_all add: trySendQueue_Cons[OF q])
      moreover from trySendMessage_wire[OF tm] Would_block have "wire s1 @ r = wire s @ m" by simp
      ultimately show ?thesis using q by simp
    qed
  qed
qed

lemma outgoing_wire:
  assumes "outgoing m s = Some (Inr b, s')"
  shows "wire s' @ concat (mSendQueue s') = wire s @ concat (mSendQueue s) @ m \<and>
         (b \<longleftrightarrow> mSendQueue s' = []) \<and> state s' = state s"
proof -
  from assms obtain b1 s1 where tq: "trySendQueue s = Some (Inr b1, s1)"
    by (auto simp: outgoing_def split: option.splits sum.splits)
  note w1 = trySendQueue_wire[OF tq] and f1 = trySendQueue_frame[OF tq]
  show ?thesis
  proof (cases b1)
    case False
    with assms tq have "s' = setPoll Direction_Both (s1\<lparr>mSendQueue := queue_push m (mSendQueue s1)\<rparr>)" "\<not> b"
      by (auto simp: outgoing_def)
    with w1 f1 show ?thesis
      by (simp add: setPoll_def poll_add_def queue_push_def)
  next
    case True
    with assms tq obtain x s2 where tm: "trySendMessage m s1 = Some (Inr x, s2)"
      by (auto simp: outgoing_def split: option.splits sum.splits)
    note w2 = trySendMessage_wire[OF tm] and f2 = trySendMessage_frame[OF tm]
    from True w1 have e1: "mSendQueue s1 = []" by simp
    show ?thesis
    proof (cases x)
      case Sent_all
      with True assms tq tm have "s' = s2" "b" by (auto simp: outgoing_def)
      with w1 w2 f1 f2 e1 Sent_all show ?thesis by simp
    next
      case (Would_block r)
      with True assms tq tm
      have "s' = setPoll Direction_Both (s2\<lparr>mSendQueue := queue_push r (mSendQueue s2)\<rparr>)" "\<not> b"
        by (auto simp: outgoing_def)
      with w1 w2 f1 f2 e1 Would_block show ?thesis
        by (simp add: setPoll_def poll_add_def queue_push_def)
    qed
  qed
qed

lemma send_wire:
  assumes "send message s = Some (Inr b, s')"
  shows "wire s' @ concat (mSendQueue s') =
           wire s @ concat (mSendQueue s) @ (case message of None \<Rightarrow> [] | Some m \<Rightarrow> m) \<and>
         state s' = state s \<and> state s = Connected"
proof (cases message)
  case None
  with assms have c: "state s = Connected" and tq: "trySendQueue s = Some (Inr b, s')"
    by (auto simp: send_def split: if_splits)
  from trySendQueue_wire[OF tq] trySendQueue_frame[OF tq] c None show ?thesis by simp
next
  case (Some m)
  with assms have c: "state s = Connected" and og: "outgoing m s = Some (Inr b, s')"
    by (auto simp: send_def split: if_splits)
  from outgoing_wire[OF og] c Some show ?thesis by simp
qed

lemma process_out_wire:
  assumes "process Event_Out s = Some s'" and "state s' = Connected"
  shows "wire s' @ concat (mSendQueue s') = wire s @ concat (mSendQueue s) \<and> state s = Connected"
proof -
  from assms(1) obtain r s1 where tq: "trySendQueue s = Some (r, s1)"
    by (auto simp: process_def split: option.splits)
  show ?thesis
  proof (cases r)
    case (Inl e)
    with assms tq show ?thesis
      by (auto simp: process_def process_disconnect_def recv_up_def changeState_def poll_remove_def)
  next
    case (Inr b)
    from trySendQueue_wire[OF tq[unfolded Inr]] trySendQueue_frame[OF tq] assms tq Inr
    show ?thesis
      by (cases b) (auto simp: process_def setPoll_def poll_add_def)
  qed
qed

text \<open>
  The order of the bytes as long as no \<^verbatim>\<open>::send\<close> fails with an error other than
  "would block": over calls of \<^verbatim>\<open>send()\<close> that all return and \<^verbatim>\<open>Out\<close> flushes, with
  the state still \<open>Connected\<close> at the end, the bytes written followed by the bytes queued
  are those written and queued before, followed by the payloads in call order.
\<close>

lemma run_wire:
  "run ops s = Some (Inr bs, s') \<Longrightarrow> state s' = Connected \<Longrightarrow>
     wire s' @ concat (mSendQueue s') = wire s @ concat (mSendQueue s) @ concat (payloads ops) \<and>
     state s = Connected"
proof (induction ops s arbitrary: bs rule: run.induct)
  case (1 s)
  then show ?case by simp
next
  case (2 message ops s)
  from "2.prems"(1) obtain b s1 bs1 where
    sd: "send message s = Some (Inr b, s1)" and rn: "run ops s1 = Some (Inr bs1, s')"
    by (auto split: option.splits sum.splits)
  from "2.IH"[OF sd refl refl rn "2.prems"(2)] send_wire[OF sd]
  show ?case by (cases message) auto
next
  case (3 ops s)
  from "3.prems"(1) obtain s1 where
    pr: "process Event_Out s = Some s1" and rn: "run ops s1 = Some (Inr bs, s')"
    by (auto split: option.splits)
  from "3.IH"[OF pr rn "3.prems"(2)]
  have ih: "wire s' @ concat (mSendQueue s') = wire s1 @ concat (mSendQueue s1) @ concat (payloads ops)"
    and c1: "state s1 = Connected" by simp_all
  from process_out_wire[OF pr c1] ih show ?case by simp
qed

lemma trySendMessage_suffix:
  "trySendMessage data s = Some (Inr (Would_block r), s') \<Longrightarrow> suffix r data"
proof (induction data s rule: trySendMessage.induct)
  case (1 data s)
  from "1.prems" show ?case
    by (subst (asm) trySendMessage.simps)
       (auto split: if_splits list.splits send_ret.splits
             dest!: "1.IH" intro: suffix_order.trans[OF _ suffix_drop])
qed

lemma in_flight_inv_Nil [simp]: "in_flight_inv submitted []"
  by (simp add: in_flight_inv_def)

lemma in_flight_inv_refl: "in_flight_inv q q"
  by (cases q) (auto simp: in_flight_inv_def intro!: bexI[of _ 0])

lemma in_flight_inv_pop:
  assumes "in_flight_inv submitted (m # rest)"
  shows "in_flight_inv submitted rest"
proof (cases rest)
  case Nil
  then show ?thesis by simp
next
  case (Cons h rest')
  from assms obtain k where k: "k < length submitted" "rest = drop (Suc k) submitted"
    by (auto simp: in_flight_inv_def)
  with Cons have lt: "Suc k < length submitted"
    by (metis drop_eq_Nil linorder_not_less list.distinct(1))
  with k Cons have "h = submitted ! Suc k" "rest' = drop (Suc (Suc k)) submitted"
    by (metis Cons_nth_drop_Suc list.inject)+
  with lt Cons show ?thesis
    by (auto simp: in_flight_inv_def intro!: bexI[of _ "Suc k"])
qed

lemma in_flight_inv_exchange:
  assumes "in_flight_inv submitted (m # rest)" and "suffix r m"
  shows "in_flight_inv submitted (r # rest)"
  using assms by (auto simp: in_flight_inv_def intro: suffix_order.trans)

lemma in_flight_inv_push:
  assumes "in_flight_inv submitted q" and "q \<noteq> []"
  shows "in_flight_inv (submitted @ [m]) (q @ [m])"
proof -
  from assms obtain h rest where q: "q = h # rest" by (cases q) auto
  with assms obtain k where k: "k < length submitted" "suffix h (submitted ! k)"
    "rest = drop (Suc k) submitted"
    by (auto simp: in_flight_inv_def)
  then show ?thesis unfolding q
    by (auto simp: in_flight_inv_def nth_append intro!: bexI[of _ k])
qed

lemma in_flight_inv_first:
  assumes "suffix r m"
  shows "in_flight_inv (submitted @ [m]) [r]"
  using assms by (auto simp: in_flight_inv_def intro!: bexI[of _ "length submitted"])

lemma trySendQueue_in_flight:
  "trySendQueue s = Some (r, s') \<Longrightarrow> in_flight_inv submitted (mSendQueue s) \<Longrightarrow>
     in_flight_inv submitted (mSendQueue s')"
proof (induction s rule: trySendQueue_induct)
  case (1 s)
  then show ?case by (simp add: trySendQueue_Nil)
next
  case (2 s m rest)
  from "2.prems"(1) obtain x s1 where tm: "trySendMessage m s = Some (x, s1)"
    by (auto simp: trySendQueue_Cons[OF "2.hyps"] split: option.splits)
  note f = trySendMessage_frame[OF tm]
  show ?case
  proof (cases x)
    case (Inl e)
    with tm "2.prems" f show ?thesis by (auto simp: trySendQueue_Cons[OF "2.hyps"])
  next
    case (Inr st)
    show ?thesis
    proof (cases st)
      case Sent_all
      with Inr tm "2.prems" have "trySendQueue (s1\<lparr>mSendQueue := rest\<rparr>) = Some (r, s')"
        by (simp add: trySendQueue_Cons[OF "2.hyps"])
      moreover from "2.prems"(2) "2.hyps" have "in_flight_inv submitted rest"
        by (auto dest: in_flight_inv_pop)
      ultimately show ?thesis using "2.IH"[OF tm[unfolded Inr Sent_all]] by simp
    next
      case (Would_block d)
      with Inr tm "2.prems"(1) have s': "s' = s1\<lparr>mSendQueue := d # rest\<rparr>"
        by (auto simp: trySendQueue_Cons[OF "2.hyps"])
      from tm Inr Would_block have "suffix d m" by (auto dest: trySendMessage_suffix)
      with "2.prems"(2) "2.hyps" show ?thesis unfolding s'
        by (auto intro: in_flight_inv_exchange)
    qed
  qed
qed

lemma outgoing_in_flight:
  assumes "outgoing m s = Some (r, s')" and "in_flight_inv submitted (mSendQueue s)"
  shows "(case r of Inl e \<Rightarrow> in_flight_inv submitted (mSendQueue s')
                  | Inr b \<Rightarrow> in_flight_inv (submitted @ [m]) (mSendQueue s'))"
proof -
  from assms(1) obtain r1 s1 where tq: "trySendQueue s = Some (r1, s1)"
    by (auto simp: outgoing_def split: option.splits)
  note i1 = trySendQueue_in_flight[OF tq assms(2)]
  show ?thesis
  proof (cases r1)
    case (Inl e)
    with assms(1) tq i1 show ?thesis by (auto simp: outgoing_def)
  next
    case (Inr b1)
    note w1 = trySendQueue_wire[OF tq[unfolded Inr]]
    show ?thesis
    proof (cases b1)
      case False
      with assms(1) tq Inr
      have "s' = setPoll Direction_Both (s1\<lparr>mSendQueue := queue_push m (mSendQueue s1)\<rparr>)"
        "r = Inr False"
        by (auto simp: outgoing_def)
      moreover from False w1 have "mSendQueue s1 \<noteq> []" by simp
      ultimately show ?thesis using i1
        by (simp add: setPoll_def poll_add_def queue_push_def in_flight_inv_push)
    next
      case True
      with w1 have e1: "mSendQueue s1 = []" by simp
      from True Inr assms(1) tq obtain x s2 where tm: "trySendMessage m s1 = Some (x, s2)"
        by (auto simp: outgoing_def split: option.splits)
      note f2 = trySendMessage_frame[OF tm]
      show ?thesis
      proof (cases x)
        case (Inl e)
        with True Inr assms(1) tq tm f2 e1 show ?thesis by (auto simp: outgoing_def)
      next
        case (Inr st)
        show ?thesis
        proof (cases st)
          case Sent_all
          with True \<open>r1 = Inr b1\<close> Inr assms(1) tq tm f2 e1 show ?thesis
            by (auto simp: outgoing_def)
        next
          case (Would_block d)
          with tm Inr have "suffix d m" by (auto dest: trySendMessage_suffix)
          with Would_block True \<open>r1 = Inr b1\<close> Inr assms(1) tq tm f2 e1 show ?thesis
            by (auto simp: outgoing_def setPoll_def poll_add_def queue_push_def
                     intro: in_flight_inv_first)
        qed
      qed
    qed
  qed
qed

lemma send_in_flight:
  assumes "send message s = Some (r, s')" and "in_flight_inv submitted (mSendQueue s)"
  shows "(case r of Inl e \<Rightarrow> in_flight_inv submitted (mSendQueue s')
                  | Inr b \<Rightarrow> in_flight_inv (submitted @ payloads [Op_send message]) (mSendQueue s'))"
proof (cases "state s = Connected")
  case False
  with assms show ?thesis by (auto simp: send_def)
next
  case True
  show ?thesis
  proof (cases message)
    case None
    with True assms(1) have "trySendQueue s = Some (r, s')" by (simp add: send_def)
    from trySendQueue_in_flight[OF this assms(2)] None show ?thesis
      by (cases r) auto
  next
    case (Some m)
    with True assms(1) have "outgoing m s = Some (r, s')" by (simp add: send_def)
    from outgoing_in_flight[OF this assms(2)] Some show ?thesis
      by (cases r) auto
  qed
qed

lemma process_out_in_flight:
  assumes "process Event_Out s = Some s'" and "in_flight_inv submitted (mSendQueue s)"
  shows "in_flight_inv submitted (mSendQueue s')"
proof -
  from assms(1) obtain r s1 where tq: "trySendQueue s = Some (r, s1)"
    by (auto simp: process_def split: option.splits)
  from trySendQueue_in_flight[OF tq assms(2)] assms(1) tq show ?thesis
    by (auto simp: process_def process_disconnect_def recv_up_def changeState_def
                   poll_remove_def setPoll_def poll_add_def
             split: sum.splits bool.splits if_splits)
qed

lemma trySendMessage_progress:
  "Send_again \<in> set (send_rets s) \<Longrightarrow>
     \<exists>r s'. trySendMessage data s = Some (r, s') \<and>
            (r = Inr Sent_all \<longrightarrow> Send_again \<in> set (send_rets s'))"
proof (induction data s rule: trySendMessage.induct)
  case (1 data s)
  show ?case
  proof (cases "data = []")
    case True
    with "1.prems" show ?thesis by (simp add: trySendMessage.simps)
  next
    case False
    from "1.prems" obtain a rs where sc: "send_rets s = a # rs" by (cases "send_rets s") auto
    show ?thesis
    proof (cases a)
      case (Send_len len)
      with sc "1.prems" have "Send_again \<in> set rs" by auto
      with "1.IH"[OF False sc Send_len] False sc Send_len show ?thesis
        by (subst trySendMessage.simps) simp
    next
      case Send_again
      with False sc show ?thesis by (subst trySendMessage.simps) simp
    next
      case Send_error
      with False sc show ?thesis by (subst trySendMessage.simps) simp
    qed
  qed
qed

lemma trySendQueue_progress:
  "Send_again \<in> set (send_rets s) \<Longrightarrow>
     \<exists>r s'. trySendQueue s = Some (r, s') \<and>
            (r = Inr True \<longrightarrow> Send_again \<in> set (send_rets s'))"
proof (induction s rule: trySendQueue_induct)
  case (1 s)
  then show ?case by (simp add: trySendQueue_Nil)
next
  case (2 s m rest)
  from trySendMessage_progress[OF "2.prems", of m] obtain x s1 where
    tm: "trySendMessage m s = Some (x, s1)"
    and keep: "x = Inr Sent_all \<longrightarrow> Send_again \<in> set (send_rets s1)" by blast
  show ?case
  proof (cases x)
    case (Inl e)
    with tm show ?thesis by (simp add: trySendQueue_Cons[OF "2.hyps"])
  next
    case (Inr st)
    show ?thesis
    proof (cases st)
      case Sent_all
      with Inr keep have "Send_again \<in> set (send_rets (s1\<lparr>mSendQueue := rest\<rparr>))" by simp
      from "2.IH"[OF tm[unfolded Inr Sent_all] this] tm Inr Sent_all show ?thesis
        by (simp add: trySendQueue_Cons[OF "2.hyps"])
    next
      case (Would_block d)
      with Inr tm show ?thesis by (simp add: trySendQueue_Cons[OF "2.hyps"])
    qed
  qed
qed

lemma outgoing_progress:
  assumes "Send_again \<in> set (send_rets s)"
  shows "\<exists>r s'. outgoing m s = Some (r, s')"
proof -
  from trySendQueue_progress[OF assms] obtain r1 s1 where
    tq: "trySendQueue s = Some (r1, s1)"
    and keep: "r1 = Inr True \<longrightarrow> Send_again \<in> set (send_rets s1)" by blast
  show ?thesis
  proof (cases "r1 = Inr True")
    case True
    with keep trySendMessage_progress[of s1 m] obtain x s2 where
      "trySendMessage m s1 = Some (x, s2)" by blast
    with True tq show ?thesis
      by (auto simp: outgoing_def split: sum.splits send_status.splits)
  next
    case False
    with tq show ?thesis
      by (auto simp: outgoing_def split: sum.splits bool.splits)
  qed
qed

lemma recv_loop_chunks:
  assumes "recv_rets s = map Recv_data cs @ r # rest"
    and "\<forall>c \<in> set cs. c \<noteq> [] \<and> length c \<le> bufferSize"
    and "r = Recv_again \<or> r = Recv_error \<or> r = Recv_data []"
  shows "recv_loop s =
           Some (r, s\<lparr>recv_rets := rest,
                     log := log s @ recv_log (mSock s) cs @ [Sys_recv (mSock s)]\<rparr>)"
  using assms(1,2)
proof (induction cs arbitrary: s)
  case Nil
  with assms(3) show ?case
    by (subst recv_loop.simps) (auto simp: sys_recv_def recv_log_def)
next
  case (Cons c cs)
  let ?s1 = "incoming (Some c) (s\<lparr>recv_rets := map Recv_data cs @ r # rest,
                                   log := log s @ [Sys_recv (mSock s)]\<rparr>)"
  from Cons.prems have c: "c \<noteq> []" "length c \<le> bufferSize" by auto
  with Cons.prems(1) have sr: "sys_recv s = Some (Recv_data c,
      s\<lparr>recv_rets := map Recv_data cs @ r # rest, log := log s @ [Sys_recv (mSock s)]\<rparr>)"
    by (simp add: sys_recv_def)
  have "recv_loop s = recv_loop ?s1"
    using sr c by (subst recv_loop.simps) simp
  also have "recv_rets ?s1 = map Recv_data cs @ r # rest"
    by (simp add: incoming_def recv_up_def)
  from Cons.IH[OF this] Cons.prems(2)
  have "recv_loop ?s1 = Some (r, ?s1\<lparr>recv_rets := rest,
                     log := log ?s1 @ recv_log (mSock ?s1) cs @ [Sys_recv (mSock ?s1)]\<rparr>)"
    by simp
  also have "?s1\<lparr>recv_rets := rest,
                     log := log ?s1 @ recv_log (mSock ?s1) cs @ [Sys_recv (mSock ?s1)]\<rparr> =
             s\<lparr>recv_rets := rest,
                     log := log s @ recv_log (mSock s) (c # cs) @ [Sys_recv (mSock s)]\<rparr>"
    by (simp add: incoming_def recv_up_def recv_log_def)
  finally show ?case .
qed

lemma trySendMessage_filter_log:
  "trySendMessage data s = Some (r, s') \<Longrightarrow> (\<And>fd n. \<not> P (Sys_send fd n)) \<Longrightarrow>
     filter P (log s') = filter P (log s)"
proof (induction data s rule: trySendMessage.induct)
  case (1 data s)
  from "1.prems" show ?case
    by (subst (asm) trySendMessage.simps)
       (auto split: if_splits list.splits send_ret.splits dest!: "1.IH")
qed

lemma trySendQueue_filter_log:
  "trySendQueue s = Some (r, s') \<Longrightarrow> (\<And>fd n. \<not> P (Sys_send fd n)) \<Longrightarrow>
     filter P (log s') = filter P (log s)"
proof (induction s rule: trySendQueue_induct)
  case (1 s)
  then show ?case by (simp add: trySendQueue_Nil)
next
  case (2 s m rest)
  from "2.prems"(1) obtain x s1 where tm: "trySendMessage m s = Some (x, s1)"
    by (auto simp: trySendQueue_Cons[OF "2.hyps"] split: option.splits)
  from trySendMessage_filter_log[OF tm, of P] "2.prems"(2)
  have f: "filter P (log s1) = filter P (log s)" by simp
  show ?case
  proof (cases x)
    case (Inl e)
    with tm "2.prems"(1) f show ?thesis by (auto simp: trySendQueue_Cons[OF "2.hyps"])
  next
    case (Inr st)
    show ?thesis
    proof (cases st)
      case Sent_all
      with Inr tm "2.prems"(1) have "trySendQueue (s1\<lparr>mSendQueue := rest\<rparr>) = Some (r, s')"
        by (simp add: trySendQueue_Cons[OF "2.hyps"])
      from "2.IH"[OF tm[unfolded Inr Sent_all] this] "2.prems"(2) f show ?thesis by simp
    next
      case (Would_block d)
      with Inr tm "2.prems"(1) f show ?thesis by (auto simp: trySendQueue_Cons[OF "2.hyps"])
    qed
  qed
qed

lemma recv_loop_frame:
  "recv_loop s = Some (r, s') \<Longrightarrow>
     mSock s' = mSock s \<and> opened s' = opened s \<and> polls s' = polls s \<and>
     state s' = state s \<and> mSendQueue s' = mSendQueue s \<and> overlap s' = overlap s \<and>
     wire s' = wire s \<and> prepare_rets s' = prepare_rets s \<and> sockopt_rets s' = sockopt_rets s \<and>
     send_rets s' = send_rets s \<and>
     eos_count (log s') = eos_count (log s) \<and> close_count (log s') = close_count (log s)"
proof (induction s rule: recv_loop.induct)
  case (1 s)
  from "1.prems" obtain x s1 where sr: "sys_recv s = Some (x, s1)"
    by (subst (asm) recv_loop.simps) (auto split: option.splits)
  then have f1: "mSock s1 = mSock s \<and> opened s1 = opened s \<and> polls s1 = polls s \<and>
     state s1 = state s \<and> mSendQueue s1 = mSendQueue s \<and> overlap s1 = overlap s \<and>
     wire s1 = wire s \<and> prepare_rets s1 = prepare_rets s \<and> sockopt_rets s1 = sockopt_rets s \<and>
     send_rets s1 = send_rets s \<and>
     eos_count (log s1) = eos_count (log s) \<and> close_count (log s1) = close_count (log s)"
    by (auto simp: sys_recv_def eos_count_def close_count_def split: list.splits recv_ret.splits)
  show ?case
  proof (cases "\<exists>b. x = Recv_data b \<and> b \<noteq> []")
    case True
    then obtain b where x: "x = Recv_data b" and b: "b \<noteq> []" by blast
    with sr "1.prems" have "recv_loop (incoming (Some b) s1) = Some (r, s')"
      by (subst (asm) recv_loop.simps) simp
    from "1.IH"[OF sr[unfolded x] refl refl b this] f1 show ?thesis
      by (simp add: incoming_def recv_up_def eos_count_def close_count_def)
  next
    case False
    with sr "1.prems" have "s' = s1"
      by (subst (asm) recv_loop.simps) (auto split: recv_ret.splits if_splits)
    with f1 show ?thesis by simp
  qed
qed

lemma recv_loop_bound:
  "recv_loop s = Some (r, s') \<Longrightarrow> Recv_up (Some c) \<in> set (log s') \<Longrightarrow>
     Recv_up (Some c) \<in> set (log s) \<or> (c \<noteq> [] \<and> length c \<le> bufferSize)"
proof (induction s rule: recv_loop.induct)
  case (1 s)
  from "1.prems"(1) obtain x s1 where sr: "sys_recv s = Some (x, s1)"
    by (subst (asm) recv_loop.simps) (auto split: option.splits)
  then have l1: "log s1 = log s @ [Sys_recv (mSock s)]"
    by (auto simp: sys_recv_def split: list.splits recv_ret.splits)
  show ?case
  proof (cases "\<exists>b. x = Recv_data b \<and> b \<noteq> []")
    case True
    then obtain b where x: "x = Recv_data b" and b: "b \<noteq> []" by blast
    from sr x have len: "length b \<le> bufferSize"
      by (auto simp: sys_recv_def split: list.splits recv_ret.splits)
    from x b sr "1.prems"(1) have "recv_loop (incoming (Some b) s1) = Some (r, s')"
      by (subst (asm) recv_loop.simps) simp
    from "1.IH"[OF sr[unfolded x] refl refl b this "1.prems"(2)] l1 b len show ?thesis
      by (auto simp: incoming_def recv_up_def)
  next
    case False
    with sr "1.prems"(1) have "s' = s1"
      by (subst (asm) recv_loop.simps) (auto split: recv_ret.splits if_splits)
    with l1 "1.prems"(2) show ?thesis by simp
  qed
qed

lemma process_in_bound:
  assumes "process Event_In s = Some s'" and "Recv_up (Some c) \<in> set (log s')"
  shows "Recv_up (Some c) \<in> set (log s) \<or> (c \<noteq> [] \<and> length c \<le> bufferSize)"
proof -
  from assms(1) obtain r s1 where rl: "recv_loop s = Some (r, s1)"
    by (auto simp: process_def split: option.splits)
  with assms have "Recv_up (Some c) \<in> set (log s1)"
    by (auto simp: process_def process_disconnect_def recv_up_def changeState_def poll_remove_def
             split: recv_ret.splits)
  from recv_loop_bound[OF rl this] show ?thesis .
qed

lemma one_socket_frame:
  assumes "one_socket s"
    and "mSock s' = mSock s" "opened s' = opened s" "polls s' = polls s" "overlap s' = overlap s"
  shows "one_socket s'"
  using assms by (simp add: one_socket_def)

lemma one_socket_poll_add: "one_socket s \<Longrightarrow> one_socket (poll_add (mSock s) p s)"
  by (auto simp: one_socket_def poll_add_def)

lemma one_socket_setPoll: "one_socket s \<Longrightarrow> one_socket (setPoll d s)"
  by (simp add: setPoll_def one_socket_poll_add)

lemma one_socket_changeState: "one_socket s \<Longrightarrow> one_socket (changeState st s)"
  by (simp add: one_socket_def changeState_def)

lemma one_socket_process_disconnect: "one_socket s \<Longrightarrow> one_socket (process_disconnect s)"
  by (auto simp: one_socket_def process_disconnect_def recv_up_def changeState_def poll_remove_def)

lemma one_socket_close: "one_socket s \<Longrightarrow> one_socket (close s)"
  by (auto simp: one_socket_def close_def changeState_def poll_remove_def sys_closesocket_def)

lemma one_socket_send:
  assumes "one_socket s" and "send message s = Some (r, s')"
  shows "one_socket s'"
proof (cases "state s = Connected")
  case False
  with assms show ?thesis by (simp add: send_def)
next
  case True
  show ?thesis
  proof (cases message)
    case None
    with True assms(2) have "trySendQueue s = Some (r, s')" by (simp add: send_def)
    from trySendQueue_frame[OF this] assms(1) show ?thesis by (simp add: one_socket_def)
  next
    case (Some m)
    with True assms(2) have og: "outgoing m s = Some (r, s')" by (simp add: send_def)
    then obtain r1 s1 where tq: "trySendQueue s = Some (r1, s1)"
      by (auto simp: outgoing_def split: option.splits)
    from trySendQueue_frame[OF tq] assms(1) have o1: "one_socket s1" by (simp add: one_socket_def)
    have push: "one_socket (setPoll Direction_Both (t\<lparr>mSendQueue := q\<rparr>))" if "one_socket t" for t q
      using that by (auto simp: one_socket_def setPoll_def poll_add_def)
    show ?thesis
    proof (cases "r1 = Inr True")
      case False
      with og tq o1 push show ?thesis
        by (auto simp: outgoing_def split: sum.splits bool.splits)
    next
      case True
      with og tq obtain x s2 where tm: "trySendMessage m s1 = Some (x, s2)"
        by (auto simp: outgoing_def split: option.splits)
      from trySendMessage_frame[OF tm] o1 have o2: "one_socket s2" by (simp add: one_socket_def)
      from True og tq tm o2 push show ?thesis
        by (auto simp: outgoing_def split: sum.splits send_status.splits)
    qed
  qed
qed

lemma one_socket_process:
  assumes "one_socket s" and "process event s = Some s'"
  shows "one_socket s'"
proof (cases event)
  case Event_None
  with assms show ?thesis by (simp add: process_def)
next
  case Event_Error
  with assms show ?thesis by (auto simp: process_def one_socket_process_disconnect)
next
  case Event_Timeout
  with assms(2) have "s' = incoming (Some []) s" by (simp add: process_def)
  then show ?thesis
    by (intro one_socket_frame[OF assms(1)]) (simp_all add: incoming_def recv_up_def)
next
  case Event_In
  with assms(2) obtain r s1 where rl: "recv_loop s = Some (r, s1)"
    by (auto simp: process_def split: option.splits)
  from recv_loop_frame[OF rl] assms(1) have "one_socket s1" by (simp add: one_socket_def)
  with Event_In assms(2) rl show ?thesis
    by (auto simp: process_def one_socket_process_disconnect split: recv_ret.splits)
next
  case Event_Out
  with assms(2) obtain r s1 where tq: "trySendQueue s = Some (r, s1)"
    by (auto simp: process_def split: option.splits)
  from trySendQueue_frame[OF tq] assms(1) have "one_socket s1" by (simp add: one_socket_def)
  with Event_Out assms(2) tq show ?thesis
    by (auto simp: process_def one_socket_process_disconnect one_socket_setPoll
             split: sum.splits bool.splits)
qed

lemma fresh_fd_Nil: "fresh_fd [] = 0"
  by (simp add: fresh_fd_def)

lemma one_socket_prepare:
  assumes "one_socket s" and "mSock s = INVALID_SOCKET" and "prepare addr s = Some (r, s')"
  shows "one_socket s' \<and> (\<forall>e. r = Inl e \<longrightarrow> mSock s' = INVALID_SOCKET)"
proof -
  from assms(1,2) have o: "opened s = []" "\<not> overlap s"
    "\<forall>e \<in> set (polls s). fst e = INVALID_SOCKET"
    by (auto simp: one_socket_def)
  from assms(3) obtain a rs where sc: "prepare_rets s = a # rs"
    by (cases "prepare_rets s") (auto simp: prepare_def)
  with assms(3) o show ?thesis
    by (cases a)
       (auto simp: prepare_def prepare_catch_def sys_socket_def sys_closesocket_def
                   fresh_fd_Nil one_socket_def INVALID_SOCKET_def Let_def)
qed

lemma one_socket_attempt:
  "one_socket s \<Longrightarrow> mSock s = INVALID_SOCKET \<Longrightarrow> attempt ais s = Some s' \<Longrightarrow> one_socket s'"
proof (induction ais arbitrary: s s')
  case Nil
  then show ?case by (auto simp: one_socket_def changeState_def free_addrinfo_def)
next
  case (Cons ai ai_next)
  from Cons.prems(3) obtain r s1 where pr: "prepare ai s = Some (r, s1)"
    by (auto split: option.splits)
  note p = one_socket_prepare[OF Cons.prems(1,2) pr]
  show ?case
  proof (cases r)
    case (Inl e)
    with pr Cons.prems(3) obtain s2 where at: "attempt ai_next s1 = Some s2"
      and s': "s' = poll_add (mSock s2) (Params Direction_Out (Some 10) (Connect_callback ai ai_next)) s2"
      by (auto split: option.splits)
    from p Inl have "one_socket s1" "mSock s1 = INVALID_SOCKET" by auto
    from Cons.IH[OF this at] s' show ?thesis by (simp add: one_socket_poll_add)
  next
    case (Inr u)
    with pr Cons.prems(3) p show ?thesis by (auto simp: one_socket_poll_add)
  qed
qed

lemma one_socket_connect_catch:
  assumes "one_socket s" and "connect_catch ai_next s = Some s'"
  shows "one_socket s'"
proof -
  let ?t = "(sys_closesocket (mSock s) (poll_remove (mSock s) s))\<lparr>mSock := INVALID_SOCKET\<rparr>"
  from assms(1) have "one_socket ?t" "mSock ?t = INVALID_SOCKET"
    by (auto simp: one_socket_def sys_closesocket_def poll_remove_def)
  from one_socket_attempt[OF this] assms(2) show ?thesis by (simp add: connect_catch_def)
qed

lemma one_socket_connect_callback:
  assumes "one_socket s" and "connect_callback ai ai_next event s = Some s'"
  shows "one_socket s'"
proof (cases event)
  case Event_Out
  with assms(2) obtain r s1 where g: "sys_getsockopt s = Some (r, s1)"
    by (auto simp: connect_callback_def split: option.splits)
  then have o1: "one_socket s1"
    by (intro one_socket_frame[OF assms(1)])
       (auto simp: sys_getsockopt_def split: list.splits)
  have ok: "one_socket (setPoll Direction_In (changeState Connected (free_addrinfo s1)))"
    by (intro one_socket_setPoll one_socket_changeState one_socket_frame[OF o1])
       (simp_all add: free_addrinfo_def)
  from Event_Out assms(2) g o1 ok show ?thesis
    by (auto simp: connect_callback_def split: sockopt_ret.splits if_splits
             intro: one_socket_connect_catch)
qed (use assms in \<open>auto simp: connect_callback_def intro: one_socket_connect_catch\<close>)

lemma one_socket_poll_event:
  assumes "one_socket s" and "poll_event fd event s = Some s'"
  shows "one_socket s'"
  using assms
  by (auto simp: poll_event_def split: option.splits Params.splits callback.splits
           intro: one_socket_connect_callback one_socket_process)

lemma one_socket_start:
  assumes "one_socket s" and "start result s = Some (r, s')"
  shows "one_socket s'"
proof (cases "mSock s = INVALID_SOCKET")
  case False
  with assms show ?thesis
    by (auto simp: start_def intro!: one_socket_setPoll one_socket_changeState)
next
  case True
  let ?s1 = "changeState Connecting s"
  from assms(1) True have o1: "one_socket ?s1" "mSock ?s1 = INVALID_SOCKET"
    by (simp_all add: one_socket_changeState) (simp add: changeState_def)
  show ?thesis
  proof (cases result)
    case None
    with True assms(2) o1 show ?thesis by (auto simp: start_def connect_def)
  next
    case (Some ais)
    with True assms(2) have "attempt ais ?s1 = Some s'"
      by (auto simp: start_def connect_def Let_def split: option.splits)
    from one_socket_attempt[OF o1 this] show ?thesis .
  qed
qed

lemma close_again:
  "mSock s = INVALID_SOCKET \<Longrightarrow> close s = changeState Disconnected s"
  by (simp add: close_def)

lemma close_repeated:
  "mSock ((close ^^ Suc n) s) = INVALID_SOCKET \<and>
   state ((close ^^ Suc n) s) = Disconnected \<and>
   polls ((close ^^ Suc n) s) = polls (close s) \<and>
   opened ((close ^^ Suc n) s) = opened (close s) \<and>
   log ((close ^^ Suc n) s) = log (close s) @ replicate n (Change_state Disconnected)"
proof (induction n)
  case 0
  show ?case by (simp add: close_def changeState_def)
next
  case (Suc n)
  let ?t = "(close ^^ Suc n) s"
  from Suc have inv: "mSock ?t = INVALID_SOCKET" by simp
  have "(close ^^ Suc (Suc n)) s = close ?t" by simp
  also have "\<dots> = changeState Disconnected ?t" using inv by (rule close_again)
  finally have "(close ^^ Suc (Suc n)) s = changeState Disconnected ?t" .
  with Suc show ?case
    by (simp add: changeState_def replicate_append_same del: funpow.simps)
qed

lemmas eval_defs =
  connected_on_3_def TcpTransport_passive_def TcpTransport_active_def send_def outgoing_def
  trySendQueue.simps trySendMessage.simps int_size_def send_most_def queue_peek_def queue_push_def queue_pop_def
  queue_exchange_def setPoll_def poll_add_def poll_remove_def process_def changeState_def
  recv_up_def process_disconnect_def INVALID_SOCKET_def

lemmas connect_eval =
  connect_def prepare_def prepare_catch_def sys_socket_def sys_closesocket_def fresh_fd_def
  sys_getsockopt_def connect_catch_def connect_callback_def free_addrinfo_def start_def
  poll_event_def close_def stop_def

lemma start_gives_connecting_on_0:
  "start (Some [7]) (TcpTransport_active [Connect_pending] [] [] []) = Some (Inr (), connecting_on_0)"
  by (simp add: connecting_on_0_def eval_defs connect_eval)

section \<open>The claims\<close>

subsection \<open>C1\<close>

text \<open>
  C1 does not hold once a \<^verbatim>\<open>::send\<close> fails with an error other than "would block".
  Three calls of \<^verbatim>\<open>send()\<close> on a connected transport, with the payloads \<open>[1, 2, 3]\<close>,
  \<open>[4]\<close> and \<open>[5]\<close>: the first finds the socket not writable and queues its message
  whole. In the second, the flush writes one byte of the queue head and then
  \<^verbatim>\<open>::send\<close> fails: \<^verbatim>\<open>trySendQueue\<close> lets the exception out with the head still whole
  in the queue, \<^verbatim>\<open>send()\<close> throws "Connection closed", and the state is still
  \<open>Connected\<close>. The third call flushes the head again from its first byte and then
  writes its own message. The bytes written are \<open>[1, 1, 2, 3, 5]\<close>: the first byte
  twice, the second payload not at all.
\<close>

theorem send_after_hard_error:
  "send (Some [1, 2, 3])
     (connected_on_3 [Send_again, Send_len 1, Send_error, Send_len 3, Send_len 1] []) =
     Some (Inr False,
           (connected_on_3 [Send_len 1, Send_error, Send_len 3, Send_len 1] [])
             \<lparr>mSendQueue := [[1, 2, 3]],
              polls := [(3, Params Direction_Both None Process_callback)],
              log := log (connected_on_3 [] []) @
                     [Sys_send 3 3,
                      Poll_add 3 (Params Direction_Both None Process_callback)]\<rparr>) \<and>
   send (Some [4])
     ((connected_on_3 [Send_len 1, Send_error, Send_len 3, Send_len 1] [])
        \<lparr>mSendQueue := [[1, 2, 3]],
         polls := [(3, Params Direction_Both None Process_callback)],
         log := log (connected_on_3 [] []) @
                [Sys_send 3 3,
                 Poll_add 3 (Params Direction_Both None Process_callback)]\<rparr>) =
     Some (Inl Connection_closed,
           (connected_on_3 [Send_len 3, Send_len 1] [])
             \<lparr>mSendQueue := [[1, 2, 3]], wire := [1],
              polls := [(3, Params Direction_Both None Process_callback)],
              log := log (connected_on_3 [] []) @
                     [Sys_send 3 3,
                      Poll_add 3 (Params Direction_Both None Process_callback),
                      Sys_send 3 3, Sys_send 3 2]\<rparr>) \<and>
   state ((connected_on_3 [Send_len 3, Send_len 1] [])
            \<lparr>mSendQueue := [[1, 2, 3]], wire := [1]\<rparr>) = Connected \<and>
   send (Some [5])
     ((connected_on_3 [Send_len 3, Send_len 1] [])
        \<lparr>mSendQueue := [[1, 2, 3]], wire := [1],
         polls := [(3, Params Direction_Both None Process_callback)],
         log := log (connected_on_3 [] []) @
                [Sys_send 3 3,
                 Poll_add 3 (Params Direction_Both None Process_callback),
                 Sys_send 3 3, Sys_send 3 2]\<rparr>) =
     Some (Inr True,
           (connected_on_3 [] [])
             \<lparr>wire := [1, 1, 2, 3, 5],
              polls := [(3, Params Direction_Both None Process_callback)],
              log := log (connected_on_3 [] []) @
                     [Sys_send 3 3,
                      Poll_add 3 (Params Direction_Both None Process_callback),
                      Sys_send 3 3, Sys_send 3 2, Sys_send 3 3, Sys_send 3 1]\<rparr>) \<and>
   concat [[1, 2, 3], [4], [5]] \<noteq>
     wire ((connected_on_3 [] [])\<lparr>wire := [1, 1, 2, 3, 5 :: 8 word]\<rparr>)"
  by (simp add: eval_defs)

subsection \<open>C2\<close>

text \<open>
  C2. In every state that a transport can reach, by its constructors, \<^verbatim>\<open>start()\<close>,
  \<^verbatim>\<open>send()\<close>, \<^verbatim>\<open>stop()\<close> and the events of the poll service in any order and with any
  answers of the OS, the open descriptors are the live handle alone, or none when the
  handle is the invalid sentinel; and \<^verbatim>\<open>::socket\<close> has never been called while a
  descriptor was open or a registration for a descriptor was present, so the socket of the
  previous candidate was closed and unregistered before the next one was created.
\<close>

theorem one_socket_at_a_time:
  assumes "reachable s"
  shows "\<not> overlap s \<and> length (opened s) \<le> 1 \<and>
         opened s = (if mSock s = INVALID_SOCKET then [] else [mSock s])"
proof -
  from assms have "one_socket s"
  proof (induction rule: reachable.induct)
    case (reach_active ps gs ss rs)
    show ?case by (simp add: one_socket_def TcpTransport_active_def)
  next
    case (reach_passive sock ps gs ss rs)
    then show ?case by (simp add: one_socket_def TcpTransport_passive_def)
  next
    case (reach_start s result r s')
    then show ?case by (auto intro: one_socket_start)
  next
    case (reach_send s message r s')
    then show ?case by (auto intro: one_socket_send)
  next
    case (reach_event s fd event s')
    then show ?case by (auto intro: one_socket_poll_event)
  next
    case (reach_stop s base_stop r s')
    then show ?case by (auto simp: stop_def one_socket_close split: if_splits)
  qed
  then show ?thesis by (auto simp: one_socket_def)
qed

theorem one_socket_at_a_time_witness:
  "reachable
     ((TcpTransport_active [] [] [] [])
        \<lparr>mSock := 0, state := Connecting, opened := [0],
         polls := [(0, Params Direction_Out (Some 10) (Connect_callback 8 []))],
         log := [Change_state Connecting,
                 Sys_socket 0, Sys_ioctlsocket 0, Sys_connect 0 7,
                 Poll_add 0 (Params Direction_Out (Some 10) (Connect_callback 7 [8])),
                 Poll_remove 0, Sys_closesocket 0,
                 Sys_socket 0, Sys_ioctlsocket 0, Sys_connect 0 8,
                 Poll_add 0 (Params Direction_Out (Some 10) (Connect_callback 8 []))]\<rparr>) \<and>
   \<not> overlap ((TcpTransport_active [] [] [] [])\<lparr>mSock := 0, opened := [0]\<rparr>) \<and>
   opened ((TcpTransport_active [] [] [] [])\<lparr>mSock := 0, opened := [0]\<rparr>) =
     [mSock ((TcpTransport_active [] [] [] [])\<lparr>mSock := 0, opened := [0]\<rparr>)]"
proof -
  let ?s0 = "TcpTransport_active [Connect_pending, Connect_pending] [] [] []"
  let ?s1 = "(TcpTransport_active [Connect_pending] [] [] [])
        \<lparr>mSock := 0, state := Connecting, opened := [0],
         polls := [(0, Params Direction_Out (Some 10) (Connect_callback 7 [8]))],
         log := [Change_state Connecting,
                 Sys_socket 0, Sys_ioctlsocket 0, Sys_connect 0 7,
                 Poll_add 0 (Params Direction_Out (Some 10) (Connect_callback 7 [8]))]\<rparr>"
  let ?s2 = "(TcpTransport_active [] [] [] [])
        \<lparr>mSock := 0, state := Connecting, opened := [0],
         polls := [(0, Params Direction_Out (Some 10) (Connect_callback 8 []))],
         log := [Change_state Connecting,
                 Sys_socket 0, Sys_ioctlsocket 0, Sys_connect 0 7,
                 Poll_add 0 (Params Direction_Out (Some 10) (Connect_callback 7 [8])),
                 Poll_remove 0, Sys_closesocket 0,
                 Sys_socket 0, Sys_ioctlsocket 0, Sys_connect 0 8,
                 Poll_add 0 (Params Direction_Out (Some 10) (Connect_callback 8 []))]\<rparr>"
  have a: "start (Some [7, 8]) ?s0 = Some (Inr (), ?s1)"
    by (simp add: eval_defs connect_eval)
  have b: "poll_event 0 Event_Error ?s1 = Some ?s2"
    by (simp add: eval_defs connect_eval)
  have r: "reachable ?s2"
    by (rule reach_event[OF reach_start[OF reach_active a] b])
  from one_socket_at_a_time[OF r] r show ?thesis
    by (simp add: eval_defs)
qed

subsection \<open>C3\<close>

text \<open>
  C3, at a list of two candidates of which the first fails at once in \<^verbatim>\<open>::connect\<close>
  and the second is pending: the engine does go on to the second candidate at once, but
  when the recursive call returns it registers the callback of the failed candidate 7,
  on the socket of candidate 8, in place of the callback of candidate 8.
\<close>

theorem failed_candidate_registered:
  "start (Some [7, 8]) (TcpTransport_active [Connect_failed, Connect_pending] [] [] []) =
     Some (Inr (),
           (TcpTransport_active [] [] [] [])
             \<lparr>mSock := 0, state := Connecting, opened := [0],
              polls := [(0, Params Direction_Out (Some 10) (Connect_callback 7 [8]))],
              log := [Change_state Connecting,
                      Sys_socket 0, Sys_ioctlsocket 0, Sys_connect 0 7, Sys_closesocket 0,
                      Sys_socket 0, Sys_ioctlsocket 0, Sys_connect 0 8,
                      Poll_add 0 (Params Direction_Out (Some 10) (Connect_callback 8 [])),
                      Poll_add 0 (Params Direction_Out (Some 10) (Connect_callback 7 [8]))]\<rparr>)"
  by (simp add: eval_defs connect_eval)

subsection \<open>C4\<close>

text \<open>
  C4. Every call of \<^verbatim>\<open>send(message)\<close> made while the state is not \<open>Connected\<close> fails
  with the error "Connection is not open", thrown to the caller; the transport and its
  surroundings are as before: no call to the OS has been made (the log and the answers
  of the OS are untouched) and the send queue is unchanged.
\<close>

theorem send_not_open:
  "state s \<noteq> Connected \<Longrightarrow> send message s = Some (Inl Connection_not_open, s)"
  by (simp add: send_def)

theorem send_not_open_witness:
  "state (TcpTransport_active [] [] [Send_len 1] []) \<noteq> Connected \<and>
   send (Some [7]) (TcpTransport_active [] [] [Send_len 1] []) =
     Some (Inl Connection_not_open, TcpTransport_active [] [] [Send_len 1] [])"
proof -
  have "state (TcpTransport_active [] [] [Send_len 1] []) \<noteq> Connected"
    by (simp add: TcpTransport_active_def)
  with send_not_open[OF this, of "Some [7]"] show ?thesis by simp
qed

subsection \<open>C5\<close>

text \<open>
  C5. \<^verbatim>\<open>close()\<close> cannot fail and can be called in every state and any number of times:
  after each call the socket handle is the invalid sentinel and the state is
  \<open>Disconnected\<close>. With a live handle its calls are, in this order, the removal of the
  registration from the poll service, \<^verbatim>\<open>::closesocket\<close>, and the change of state; with
  no live handle the change of state is its only call, so that every call after the first
  adds one change of state and nothing else (no descriptor is closed twice).
  \<^verbatim>\<open>stop()\<close> is \<^verbatim>\<open>close()\<close> when the base class lets it proceed and does nothing
  otherwise, so that a call after a \<^verbatim>\<open>close()\<close> leaves the handle invalid and the state
  \<open>Disconnected\<close> either way.
\<close>

theorem close_idempotent:
  "mSock (close s) = INVALID_SOCKET \<and> state (close s) = Disconnected \<and>
   (mSock s \<noteq> INVALID_SOCKET \<longrightarrow>
      log (close s) =
        log s @ [Poll_remove (mSock s), Sys_closesocket (mSock s), Change_state Disconnected] \<and>
      polls (close s) = filter (\<lambda>e. fst e \<noteq> mSock s) (polls s) \<and>
      opened (close s) = removeAll (mSock s) (opened s)) \<and>
   (mSock s = INVALID_SOCKET \<longrightarrow> close s = changeState Disconnected s) \<and>
   (\<forall>n. mSock ((close ^^ Suc n) s) = INVALID_SOCKET \<and>
        state ((close ^^ Suc n) s) = Disconnected \<and>
        polls ((close ^^ Suc n) s) = polls (close s) \<and>
        opened ((close ^^ Suc n) s) = opened (close s) \<and>
        log ((close ^^ Suc n) s) = log (close s) @ replicate n (Change_state Disconnected)) \<and>
   stop True s = (True, close s) \<and> stop False s = (False, s) \<and>
   mSock (snd (stop base_stop (close s))) = INVALID_SOCKET \<and>
   state (snd (stop base_stop (close s))) = Disconnected"
proof -
  have one: "mSock (close s) = INVALID_SOCKET \<and> state (close s) = Disconnected \<and>
   (mSock s \<noteq> INVALID_SOCKET \<longrightarrow>
      log (close s) =
        log s @ [Poll_remove (mSock s), Sys_closesocket (mSock s), Change_state Disconnected] \<and>
      polls (close s) = filter (\<lambda>e. fst e \<noteq> mSock s) (polls s) \<and>
      opened (close s) = removeAll (mSock s) (opened s)) \<and>
   (mSock s = INVALID_SOCKET \<longrightarrow> close s = changeState Disconnected s)"
    by (simp add: close_def changeState_def sys_closesocket_def poll_remove_def)
  have st: "stop True s = (True, close s) \<and> stop False s = (False, s) \<and>
   mSock (snd (stop base_stop (close s))) = INVALID_SOCKET \<and>
   state (snd (stop base_stop (close s))) = Disconnected"
    by (simp add: close_def stop_def changeState_def sys_closesocket_def poll_remove_def)
  from one st close_repeated[of _ s] show ?thesis by blast
qed

theorem close_idempotent_witness:
  "state connecting_on_0 = Connecting \<and> mSock connecting_on_0 \<noteq> INVALID_SOCKET \<and>
   log (close connecting_on_0) =
     log connecting_on_0 @ [Poll_remove 0, Sys_closesocket 0, Change_state Disconnected] \<and>
   polls (close connecting_on_0) = [] \<and> opened (close connecting_on_0) = [] \<and>
   mSock (close connecting_on_0) = INVALID_SOCKET \<and>
   state (close connecting_on_0) = Disconnected \<and>
   log (close (close (close connecting_on_0))) =
     log connecting_on_0 @ [Poll_remove 0, Sys_closesocket 0, Change_state Disconnected,
                            Change_state Disconnected, Change_state Disconnected] \<and>
   mSock (close (close (close connecting_on_0))) = INVALID_SOCKET"
proof -
  have live: "mSock connecting_on_0 \<noteq> INVALID_SOCKET"
    by (simp add: connecting_on_0_def INVALID_SOCKET_def)
  have vals: "mSock connecting_on_0 = 0" "state connecting_on_0 = Connecting"
    "polls connecting_on_0 = [(0, Params Direction_Out (Some 10) (Connect_callback 7 []))]"
    "opened connecting_on_0 = [0]"
    by (simp_all add: connecting_on_0_def)
  note th = close_idempotent[of connecting_on_0 True]
  from th live have first: "log (close connecting_on_0) =
     log connecting_on_0 @ [Poll_remove (mSock connecting_on_0),
       Sys_closesocket (mSock connecting_on_0), Change_state Disconnected] \<and>
     polls (close connecting_on_0) =
       filter (\<lambda>e. fst e \<noteq> mSock connecting_on_0) (polls connecting_on_0) \<and>
     opened (close connecting_on_0) = removeAll (mSock connecting_on_0) (opened connecting_on_0) \<and>
     mSock (close connecting_on_0) = INVALID_SOCKET \<and> state (close connecting_on_0) = Disconnected"
    by blast
  from th have "mSock ((close ^^ Suc 2) connecting_on_0) = INVALID_SOCKET \<and>
     log ((close ^^ Suc 2) connecting_on_0) =
       log (close connecting_on_0) @ replicate 2 (Change_state Disconnected)"
    by blast
  then have third: "mSock (close (close (close connecting_on_0))) = INVALID_SOCKET \<and>
     log (close (close (close connecting_on_0))) =
       log (close connecting_on_0) @ [Change_state Disconnected, Change_state Disconnected]"
    by (simp add: numeral_2_eq_2)
  from first third live vals show ?thesis by simp
qed

subsection \<open>C6\<close>

text \<open>
  C6. On an \<^verbatim>\<open>In\<close> event \<^verbatim>\<open>process()\<close> calls \<^verbatim>\<open>::recv\<close> until it reports "would
  block"; every read of a chunk (of 1 to 4096 bytes, the size of the buffer) is handed
  upward as one message, in order, and nothing else changes. When instead a read
  returns length zero (or fails), the chunks read before are handed upward, then the
  registration is removed, the state becomes \<open>Disconnected\<close>, and one null message (the
  end of stream) is handed upward. Whatever the kernel holds, no message handed upward
  by the event is empty or longer than the buffer.
\<close>

theorem process_in:
  assumes "recv_rets s = map Recv_data cs @ r # rest"
    and "\<forall>c \<in> set cs. c \<noteq> [] \<and> length c \<le> bufferSize"
  shows "(r = Recv_again \<longrightarrow>
            process Event_In s =
              Some (s\<lparr>recv_rets := rest,
                      log := log s @ recv_log (mSock s) cs @ [Sys_recv (mSock s)]\<rparr>)) \<and>
         (r = Recv_data [] \<or> r = Recv_error \<longrightarrow>
            process Event_In s =
              Some (s\<lparr>recv_rets := rest,
                      polls := filter (\<lambda>e. fst e \<noteq> mSock s) (polls s),
                      state := Disconnected,
                      log := log s @ recv_log (mSock s) cs @
                             [Sys_recv (mSock s), Poll_remove (mSock s),
                              Change_state Disconnected, Recv_up None]\<rparr>)) \<and>
         (\<forall>s' c. process Event_In s = Some s' \<and> Recv_up (Some c) \<in> set (log s') \<longrightarrow>
            Recv_up (Some c) \<in> set (log s) \<or> (c \<noteq> [] \<and> length c \<le> bufferSize))"
proof (intro conjI impI allI)
  fix s' c
  assume "process Event_In s = Some s' \<and> Recv_up (Some c) \<in> set (log s')"
  then show "Recv_up (Some c) \<in> set (log s) \<or> (c \<noteq> [] \<and> length c \<le> bufferSize)"
    by (auto dest: process_in_bound)
next
  assume "r = Recv_again"
  with recv_loop_chunks[OF assms] show "process Event_In s =
              Some (s\<lparr>recv_rets := rest,
                      log := log s @ recv_log (mSock s) cs @ [Sys_recv (mSock s)]\<rparr>)"
    by (simp add: process_def)
next
  assume "r = Recv_data [] \<or> r = Recv_error"
  with recv_loop_chunks[OF assms] show "process Event_In s =
              Some (s\<lparr>recv_rets := rest,
                      polls := filter (\<lambda>e. fst e \<noteq> mSock s) (polls s),
                      state := Disconnected,
                      log := log s @ recv_log (mSock s) cs @
                             [Sys_recv (mSock s), Poll_remove (mSock s),
                              Change_state Disconnected, Recv_up None]\<rparr>)"
    by (auto simp: process_def process_disconnect_def recv_up_def changeState_def poll_remove_def)
qed

theorem process_in_witness:
  "recv_rets (connected_on_3 [] [Recv_data [1, 2], Recv_data [3], Recv_data []]) =
     map Recv_data [[1, 2], [3]] @ Recv_data [] # [] \<and>
   process Event_In (connected_on_3 [] [Recv_data [1, 2], Recv_data [3], Recv_data []]) =
     Some ((connected_on_3 [] [])
             \<lparr>polls := [], state := Disconnected,
              log := log (connected_on_3 [] []) @
                     [Sys_recv 3, Recv_up (Some [1, 2]), Sys_recv 3, Recv_up (Some [3]),
                      Sys_recv 3, Poll_remove 3, Change_state Disconnected, Recv_up None]\<rparr>)"
proof -
  let ?c = "connected_on_3 [] [Recv_data [1, 2], Recv_data [3], Recv_data []]"
  have r: "recv_rets ?c = map Recv_data [[1, 2], [3]] @ Recv_data [] # []"
    by (simp add: eval_defs)
  have b: "\<forall>c \<in> set [[1, 2], [3 :: 8 word]]. c \<noteq> [] \<and> length c \<le> bufferSize"
    by (simp add: bufferSize_def)
  from process_in[OF r b] have "process Event_In ?c =
     Some (?c\<lparr>recv_rets := [],
              polls := filter (\<lambda>e. fst e \<noteq> mSock ?c) (polls ?c),
              state := Disconnected,
              log := log ?c @ recv_log (mSock ?c) [[1, 2], [3]] @
                     [Sys_recv (mSock ?c), Poll_remove (mSock ?c),
                      Change_state Disconnected, Recv_up None]\<rparr>)"
    by blast
  with r show ?thesis
    by (simp add: eval_defs recv_log_def)
qed

subsection \<open>C7\<close>

text \<open>
  C7, at a list of one candidate that fails at once in \<^verbatim>\<open>::connect\<close>: the engine
  changes to \<open>Failed\<close> and frees the list, then registers the callback of the failed
  candidate under the invalid handle with the connect timeout; when the poll service
  delivers that timeout, the engine frees the list and changes to \<open>Failed\<close> a second
  time.
\<close>

theorem failed_twice:
  "start (Some [7]) (TcpTransport_active [Connect_failed] [] [] []) =
     Some (Inr (),
           (TcpTransport_active [] [] [] [])
             \<lparr>state := Failed,
              polls := [(INVALID_SOCKET, Params Direction_Out (Some 10) (Connect_callback 7 []))],
              log := [Change_state Connecting,
                      Sys_socket 0, Sys_ioctlsocket 0, Sys_connect 0 7, Sys_closesocket 0,
                      Free_addrinfo, Change_state Failed,
                      Poll_add INVALID_SOCKET
                        (Params Direction_Out (Some 10) (Connect_callback 7 []))]\<rparr>) \<and>
   poll_event INVALID_SOCKET Event_Timeout
     ((TcpTransport_active [] [] [] [])
        \<lparr>state := Failed,
         polls := [(INVALID_SOCKET, Params Direction_Out (Some 10) (Connect_callback 7 []))],
         log := [Change_state Connecting,
                 Sys_socket 0, Sys_ioctlsocket 0, Sys_connect 0 7, Sys_closesocket 0,
                 Free_addrinfo, Change_state Failed,
                 Poll_add INVALID_SOCKET
                   (Params Direction_Out (Some 10) (Connect_callback 7 []))]\<rparr>) =
     Some ((TcpTransport_active [] [] [] [])
             \<lparr>state := Failed,
              log := [Change_state Connecting,
                      Sys_socket 0, Sys_ioctlsocket 0, Sys_connect 0 7, Sys_closesocket 0,
                      Free_addrinfo, Change_state Failed,
                      Poll_add INVALID_SOCKET
                        (Params Direction_Out (Some 10) (Connect_callback 7 [])),
                      Poll_remove INVALID_SOCKET, Sys_closesocket INVALID_SOCKET,
                      Free_addrinfo, Change_state Failed]\<rparr>)"
  by (simp add: eval_defs connect_eval)

subsection \<open>C8\<close>

text \<open>
  C8. Across every call of \<^verbatim>\<open>send()\<close> and every \<^verbatim>\<open>Out\<close> flush, whatever they return
  or throw, the queue is a tail of the list of submitted messages in which only the head
  may be cut down to a suffix of itself: at most one message is in flight, it is the
  head, and the entries behind it are the submitted messages, untouched. A run that stops
  at a throwing \<^verbatim>\<open>send()\<close> has submitted the payloads of the calls before it. (That
  the head is exactly what is left to write is the equation of \<open>run_wire\<close>, which needs
  that no \<^verbatim>\<open>::send\<close> has failed.)
\<close>

theorem one_in_flight:
  assumes "run ops s = Some (r, s')" and "in_flight_inv submitted (mSendQueue s)"
  shows "(\<exists>n \<le> length ops. in_flight_inv (submitted @ payloads (take n ops)) (mSendQueue s')) \<and>
         (\<forall>bs. r = Inr bs \<longrightarrow> in_flight_inv (submitted @ payloads ops) (mSendQueue s'))"
  using assms
proof (induction ops s arbitrary: submitted r rule: run.induct)
  case (1 s)
  then show ?case by auto
next
  case (2 message ops s)
  from "2.prems"(1) obtain r1 s1 where sd: "send message s = Some (r1, s1)"
    by (auto split: option.splits)
  note i1 = send_in_flight[OF sd "2.prems"(2)]
  show ?case
  proof (cases r1)
    case (Inl e)
    with sd "2.prems"(1) have "s' = s1" "r = Inl e" by auto
    with i1 Inl show ?thesis by (auto intro!: exI[of _ 0])
  next
    case (Inr b)
    with sd "2.prems"(1) obtain r2 where rn: "run ops s1 = Some (r2, s')"
      and r: "r = (case r2 of Inl e \<Rightarrow> Inl e | Inr bs \<Rightarrow> Inr (b # bs))"
      by (auto split: option.splits sum.splits)
    from i1 Inr have i1': "in_flight_inv (submitted @ payloads [Op_send message]) (mSendQueue s1)"
      by simp
    from "2.IH"[OF sd[unfolded Inr] refl refl rn i1']
    obtain n where n: "n \<le> length ops"
      "in_flight_inv ((submitted @ payloads [Op_send message]) @ payloads (take n ops)) (mSendQueue s')"
      and all: "\<forall>bs. r2 = Inr bs \<longrightarrow>
          in_flight_inv ((submitted @ payloads [Op_send message]) @ payloads ops) (mSendQueue s')"
      by blast
    have p: "payloads [Op_send message] @ payloads xs = payloads (Op_send message # xs)" for xs
      by (cases message) auto
    from n have "Suc n \<le> length (Op_send message # ops)"
      "in_flight_inv (submitted @ payloads (take (Suc n) (Op_send message # ops))) (mSendQueue s')"
      by (simp_all add: p)
    moreover from all r have "\<forall>bs. r = Inr bs \<longrightarrow>
          in_flight_inv (submitted @ payloads (Op_send message # ops)) (mSendQueue s')"
      by (auto simp: p split: sum.splits)
    ultimately show ?thesis by blast
  qed
next
  case (3 ops s)
  from "3.prems"(1) obtain s1 where
    pr: "process Event_Out s = Some s1" and rn: "run ops s1 = Some (r, s')"
    by (auto split: option.splits)
  note i1 = process_out_in_flight[OF pr "3.prems"(2)]
  from "3.IH"[OF pr rn i1]
  obtain n where n: "n \<le> length ops"
      "in_flight_inv (submitted @ payloads (take n ops)) (mSendQueue s')"
      and all: "\<forall>bs. r = Inr bs \<longrightarrow> in_flight_inv (submitted @ payloads ops) (mSendQueue s')"
    by blast
  from n have "Suc n \<le> length (Op_out # ops)"
      "in_flight_inv (submitted @ payloads (take (Suc n) (Op_out # ops))) (mSendQueue s')"
    by simp_all
  with all show ?case by (metis payloads.simps(4))
qed

theorem one_in_flight_witness:
  "run [Op_send (Some [1, 2, 3]), Op_send (Some [4])]
       (connected_on_3 [Send_len 2, Send_again, Send_again] []) =
     Some (Inr [False, False],
           (connected_on_3 [] [])
             \<lparr>mSendQueue := [[3], [4]], wire := [1, 2],
              polls := [(3, Params Direction_Both None Process_callback)],
              log := log (connected_on_3 [] []) @
                     [Sys_send 3 3, Sys_send 3 1,
                      Poll_add 3 (Params Direction_Both None Process_callback),
                      Sys_send 3 1,
                      Poll_add 3 (Params Direction_Both None Process_callback)]\<rparr>) \<and>
   in_flight_inv [] (mSendQueue (connected_on_3 [Send_len 2, Send_again, Send_again] [])) \<and>
   in_flight_inv [[1, 2, 3], [4]] [[3], [4]]"
proof -
  let ?ops = "[Op_send (Some [1, 2, 3]), Op_send (Some [4])]"
  let ?c = "connected_on_3 [Send_len 2, Send_again, Send_again] []"
  let ?c' = "(connected_on_3 [] [])
             \<lparr>mSendQueue := [[3], [4]], wire := [1, 2],
              polls := [(3, Params Direction_Both None Process_callback)],
              log := log (connected_on_3 [] []) @
                     [Sys_send 3 3, Sys_send 3 1,
                      Poll_add 3 (Params Direction_Both None Process_callback),
                      Sys_send 3 1,
                      Poll_add 3 (Params Direction_Both None Process_callback)]\<rparr>"
  have r: "run ?ops ?c = Some (Inr [False, False], ?c')" by (simp add: eval_defs)
  have i: "in_flight_inv [] (mSendQueue ?c)" by (simp add: eval_defs)
  from one_in_flight[OF r i] have "in_flight_inv ([] @ payloads ?ops) (mSendQueue ?c')" by blast
  then have "in_flight_inv [[1, 2, 3], [4]] [[3], [4]]" by simp
  with r i show ?thesis by simp
qed

subsection \<open>C9\<close>

text \<open>
  C9 does not hold for an empty message that is not null: with a message queued and the
  socket not writable, \<^verbatim>\<open>send()\<close> of an empty message pushes the empty message as a
  second queue entry.
\<close>

theorem send_empty_counterexample:
  "send (Some []) ((connected_on_3 [Send_again] [])\<lparr>mSendQueue := [[9]]\<rparr>) =
     Some (Inr False,
           (connected_on_3 [] [])
             \<lparr>mSendQueue := [[9], []],
              polls := [(3, Params Direction_Both None Process_callback)],
              log := log (connected_on_3 [] []) @
                     [Sys_send 3 1, Poll_add 3 (Params Direction_Both None Process_callback)]\<rparr>)"
  by (simp add: eval_defs)

text \<open>
  C9, amended. A call of \<^verbatim>\<open>send()\<close> with a null message while \<open>Connected\<close> is a flush:
  it is \<^verbatim>\<open>trySendQueue()\<close>, which drains the queue in FIFO order, adds no entry (the new
  queue is a tail of the old one, its head cut down to the unsent suffix) and returns
  whether the queue fully drained. An empty message that is not null goes through
  \<^verbatim>\<open>outgoing()\<close> like any message: it adds no bytes and the call returns whether the
  queue fully drained, but the new queue is a tail of the old one followed by the empty
  message. Both calls return when the socket stops accepting bytes at some point.
\<close>

theorem send_null_flush:
  assumes "state s = Connected"
  shows "send None s = trySendQueue s \<and>
         (\<forall>b s'. send None s = Some (Inr b, s') \<longrightarrow>
            (b \<longleftrightarrow> mSendQueue s' = []) \<and>
            in_flight_inv (mSendQueue s) (mSendQueue s') \<and>
            wire s' @ concat (mSendQueue s') = wire s @ concat (mSendQueue s)) \<and>
         (\<forall>b s'. send (Some []) s = Some (Inr b, s') \<longrightarrow>
            (b \<longleftrightarrow> mSendQueue s' = []) \<and>
            in_flight_inv (mSendQueue s @ [[]]) (mSendQueue s') \<and>
            wire s' @ concat (mSendQueue s') = wire s @ concat (mSendQueue s)) \<and>
         (Send_again \<in> set (send_rets s) \<longrightarrow>
            send None s \<noteq> None \<and> send (Some []) s \<noteq> None)"
proof (intro conjI allI impI)
  show n: "send None s = trySendQueue s" using assms by (simp add: send_def)
  { fix b s' assume a: "send None s = Some (Inr b, s')"
    with n have tq: "trySendQueue s = Some (Inr b, s')" by simp
    from trySendQueue_wire[OF tq]
    show "b \<longleftrightarrow> mSendQueue s' = []"
      and "wire s' @ concat (mSendQueue s') = wire s @ concat (mSendQueue s)" by simp_all
    from trySendQueue_in_flight[OF tq in_flight_inv_refl]
    show "in_flight_inv (mSendQueue s) (mSendQueue s')" . }
  { fix b s' assume a: "send (Some []) s = Some (Inr b, s')"
    with assms have og: "outgoing [] s = Some (Inr b, s')" by (simp add: send_def)
    from outgoing_wire[OF og]
    show "b \<longleftrightarrow> mSendQueue s' = []"
      and "wire s' @ concat (mSendQueue s') = wire s @ concat (mSendQueue s)" by simp_all
    from outgoing_in_flight[OF og in_flight_inv_refl]
    show "in_flight_inv (mSendQueue s @ [[]]) (mSendQueue s')" by simp }
  { assume a: "Send_again \<in> set (send_rets s)"
    from trySendQueue_progress[OF a] n show "send None s \<noteq> None" by auto
    from outgoing_progress[OF a, of "[]"] assms show "send (Some []) s \<noteq> None"
      by (auto simp: send_def) }
qed

theorem send_null_flush_witness:
  "state ((connected_on_3 [Send_len 1, Send_again] [])\<lparr>mSendQueue := [[8, 9], [7]]\<rparr>) = Connected \<and>
   Send_again \<in> set (send_rets (connected_on_3 [Send_len 1, Send_again] [])) \<and>
   send None ((connected_on_3 [Send_len 1, Send_again] [])\<lparr>mSendQueue := [[8, 9], [7]]\<rparr>) =
     Some (Inr False,
           (connected_on_3 [] [])
             \<lparr>mSendQueue := [[9], [7]], wire := [8],
              log := log (connected_on_3 [] []) @ [Sys_send 3 2, Sys_send 3 1]\<rparr>) \<and>
   in_flight_inv [[8, 9], [7]] [[9], [7]] \<and>
   send (Some []) ((connected_on_3 [Send_len 1, Send_again] [])\<lparr>mSendQueue := [[8, 9], [7]]\<rparr>) =
     Some (Inr False,
           (connected_on_3 [] [])
             \<lparr>mSendQueue := [[9], [7], []], wire := [8],
              polls := [(3, Params Direction_Both None Process_callback)],
              log := log (connected_on_3 [] []) @
                     [Sys_send 3 2, Sys_send 3 1,
                      Poll_add 3 (Params Direction_Both None Process_callback)]\<rparr>) \<and>
   in_flight_inv ([[8, 9], [7]] @ [[]]) [[9], [7], []]"
proof -
  let ?c = "(connected_on_3 [Send_len 1, Send_again] [])\<lparr>mSendQueue := [[8, 9], [7]]\<rparr>"
  let ?c' = "(connected_on_3 [] [])
             \<lparr>mSendQueue := [[9], [7]], wire := [8],
              log := log (connected_on_3 [] []) @ [Sys_send 3 2, Sys_send 3 1]\<rparr>"
  let ?c'' = "(connected_on_3 [] [])
             \<lparr>mSendQueue := [[9], [7], []], wire := [8],
              polls := [(3, Params Direction_Both None Process_callback)],
              log := log (connected_on_3 [] []) @
                     [Sys_send 3 2, Sys_send 3 1,
                      Poll_add 3 (Params Direction_Both None Process_callback)]\<rparr>"
  have c: "state ?c = Connected" by (simp add: eval_defs)
  have a: "Send_again \<in> set (send_rets (connected_on_3 [Send_len 1, Send_again] []))"
    by (simp add: eval_defs)
  have r: "send None ?c = Some (Inr False, ?c')" by (simp add: eval_defs)
  have e: "send (Some []) ?c = Some (Inr False, ?c'')" by (simp add: eval_defs)
  note th = send_null_flush[OF c]
  from th r have "in_flight_inv (mSendQueue ?c) (mSendQueue ?c')" by blast
  then have i: "in_flight_inv [[8, 9], [7]] [[9], [7]]" by (simp add: eval_defs)
  from th e have "in_flight_inv (mSendQueue ?c @ [[]]) (mSendQueue ?c'')" by blast
  then have j: "in_flight_inv ([[8, 9], [7]] @ [[]]) [[9], [7], []]" by (simp add: eval_defs)
  from c a r i e j show ?thesis by simp
qed

subsection \<open>C10\<close>

text \<open>
  C10. \<^verbatim>\<open>process()\<close> never touches the socket handle: whatever the event, the handle
  field and the open descriptors are as before and no \<^verbatim>\<open>::closesocket\<close> is called. It
  runs its disconnect sequence (marked by the end-of-stream notification) exactly on an
  \<^verbatim>\<open>Error\<close> event, on an \<^verbatim>\<open>In\<close> event whose reads end with length zero or a hard
  error, and on an \<^verbatim>\<open>Out\<close> event whose flush throws; then the registration of the
  handle is removed and the state is \<open>Disconnected\<close>. The descriptor is released by a
  later \<^verbatim>\<open>close()\<close>, which closes it and sets the handle to the invalid sentinel.
\<close>

theorem process_keeps_socket:
  assumes "process event s = Some s'"
  shows "mSock s' = mSock s \<and> opened s' = opened s \<and>
         close_count (log s') = close_count (log s) \<and>
         (eos_count (log s') \<noteq> eos_count (log s) \<longrightarrow>
            eos_count (log s') = Suc (eos_count (log s)) \<and>
            state s' = Disconnected \<and>
            polls s' = filter (\<lambda>e. fst e \<noteq> mSock s) (polls s)) \<and>
         ((event = Event_Error \<or>
           (event = Event_In \<and> (\<exists>r s1. recv_loop s = Some (r, s1) \<and> r \<noteq> Recv_again)) \<or>
           (event = Event_Out \<and> (\<exists>e s1. trySendQueue s = Some (Inl e, s1))))
          \<longleftrightarrow> eos_count (log s') \<noteq> eos_count (log s)) \<and>
         (mSock s \<noteq> INVALID_SOCKET \<longrightarrow>
            mSock (close s') = INVALID_SOCKET \<and>
            opened (close s') = removeAll (mSock s) (opened s) \<and>
            close_count (log (close s')) = Suc (close_count (log s)))"
proof (cases event)
  case Event_None
  with assms show ?thesis
    by (auto simp: process_def close_def changeState_def sys_closesocket_def poll_remove_def
                   close_count_def)
next
  case Event_Error
  with assms show ?thesis
    by (auto simp: process_def process_disconnect_def recv_up_def close_def changeState_def
                   sys_closesocket_def poll_remove_def close_count_def eos_count_def)
next
  case Event_Timeout
  with assms show ?thesis
    by (auto simp: process_def incoming_def recv_up_def close_def changeState_def
                   sys_closesocket_def poll_remove_def close_count_def eos_count_def)
next
  case Event_In
  with assms obtain r s1 where rl: "recv_loop s = Some (r, s1)"
    by (auto simp: process_def split: option.splits)
  note f = recv_loop_frame[OF rl]
  show ?thesis
  proof (cases "r = Recv_again")
    case True
    with assms Event_In rl have "s' = s1" by (simp add: process_def)
    with f True rl Event_In show ?thesis
      by (auto simp: close_def changeState_def sys_closesocket_def poll_remove_def
                     close_count_def)
  next
    case False
    with assms Event_In rl have "s' = process_disconnect s1"
      by (cases r) (auto simp: process_def)
    with f False rl Event_In show ?thesis
      by (auto simp: process_disconnect_def recv_up_def close_def changeState_def
                     sys_closesocket_def poll_remove_def close_count_def eos_count_def)
  qed
next
  case Event_Out
  with assms obtain r s1 where tq: "trySendQueue s = Some (r, s1)"
    by (auto simp: process_def split: option.splits)
  note f = trySendQueue_frame[OF tq]
  have e: "eos_count (log s1) = eos_count (log s)"
    unfolding eos_count_def by (rule arg_cong[OF trySendQueue_filter_log[OF tq]]) simp
  have c: "close_count (log s1) = close_count (log s)"
    unfolding close_count_def by (rule arg_cong[OF trySendQueue_filter_log[OF tq]]) simp
  show ?thesis
  proof (cases r)
    case (Inl err)
    with assms Event_Out tq have "s' = process_disconnect s1" by (simp add: process_def)
    with f e c Inl tq Event_Out show ?thesis
      by (auto simp: process_disconnect_def recv_up_def close_def changeState_def
                     sys_closesocket_def poll_remove_def close_count_def eos_count_def)
  next
    case (Inr b)
    with assms Event_Out tq have "s' = (if b then setPoll Direction_In s1 else s1)"
      by (cases b) (auto simp: process_def)
    with f e c Inr tq Event_Out show ?thesis
      by (auto simp: setPoll_def poll_add_def close_def changeState_def
                     sys_closesocket_def poll_remove_def close_count_def eos_count_def)
  qed
qed

theorem process_keeps_socket_witness:
  "process Event_In (connected_on_3 [] [Recv_data []]) =
     Some ((connected_on_3 [] [])
             \<lparr>polls := [], state := Disconnected,
              log := log (connected_on_3 [] []) @
                     [Sys_recv 3, Poll_remove 3, Change_state Disconnected, Recv_up None]\<rparr>) \<and>
   mSock ((connected_on_3 [] [])\<lparr>polls := [], state := Disconnected\<rparr>) = 3 \<and>
   opened ((connected_on_3 [] [])\<lparr>polls := [], state := Disconnected\<rparr>) = [3] \<and>
   mSock (close ((connected_on_3 [] [])\<lparr>polls := [], state := Disconnected\<rparr>)) = INVALID_SOCKET \<and>
   opened (close ((connected_on_3 [] [])\<lparr>polls := [], state := Disconnected\<rparr>)) = []"
proof -
  let ?c = "connected_on_3 [] [Recv_data []]"
  let ?c' = "(connected_on_3 [] [])
             \<lparr>polls := [], state := Disconnected,
              log := log (connected_on_3 [] []) @
                     [Sys_recv 3, Poll_remove 3, Change_state Disconnected, Recv_up None]\<rparr>"
  have p: "process Event_In ?c = Some ?c'"
    by (simp add: eval_defs recv_loop.simps sys_recv_def bufferSize_def)
  have live: "mSock ?c \<noteq> INVALID_SOCKET"
    by (simp add: eval_defs)
  from process_keeps_socket[OF p] live
  have "mSock ?c' = mSock ?c \<and> opened ?c' = opened ?c \<and>
        mSock (close ?c') = INVALID_SOCKET \<and>
        opened (close ?c') = removeAll (mSock ?c) (opened ?c)"
    by blast
  with p show ?thesis
    by (simp add: eval_defs close_def sys_closesocket_def)
qed

end
